theory Spec2Isabelle
  imports Main "HOL-Library.Word"
begin

section \<open>The coroutine message bus of corobus.cpp\<close>

subsection \<open>Data model\<close>

text \<open>
  A coroutine handle (\<open>struct coro *\<close>) is opaque to the bus; handles are numbered.
  A \<open>wakeup_queue\<close> is an intrusive list of \<open>wakeup_entry\<close> records, each holding
  the handle of one suspended coroutine; the list of handles, head first, stands for it.
\<close>

type_synonym coro = nat

datatype coro_bus_error_code =
    CORO_BUS_ERR_NONE
  | CORO_BUS_ERR_NO_CHANNEL
  | CORO_BUS_ERR_WOULD_BLOCK

text \<open>
  \<open>struct coro_bus_channel\<close>. The message queue \<open>std::queue<unsigned>\<close> is a list
  whose head is the front; \<open>push\<close> appends at the end, \<open>pop\<close> drops the head.
  \<open>size_limit\<close> and the queue's size are \<open>size_t\<close> values, never near their bound.
\<close>

record coro_bus_channel =
  size_limit :: nat
  send_queue :: "coro list"
  recv_queue :: "coro list"
  data :: "32 word list"
  is_closed :: bool

text \<open>
  Calls into the coroutine runtime (libcoro) are recorded in the order they are made.
\<close>

datatype sched_call = Wakeup coro | Yield | Suspend

text \<open>
  The program state the bus operations act on: the vector \<open>bus->channels\<close> of channel
  pointers (\<open>nullptr\<close> is \<open>None\<close>; every other slot owns the channel it points to),
  the static variable \<open>global_error\<close>, and the log of runtime calls.
\<close>

record state =
  channels :: "coro_bus_channel option list"
  global_error :: coro_bus_error_code
  sched :: "sched_call list"

text \<open>
  Conversion of a \<open>size_t\<close> or \<open>unsigned\<close> value to \<open>int\<close>, as in
  \<open>(int)bus->channels.size()\<close>, \<open>(int)i\<close> and \<open>return send_c\<close>: the value is
  reduced to 32 bits and read in two's complement.
\<close>

definition int_cast :: "nat \<Rightarrow> int" where
  "int_cast n = sint (word_of_nat n :: 32 word)"

subsection \<open>Error slot and runtime calls\<close>

definition coro_bus_errno :: "state \<Rightarrow> coro_bus_error_code" where
  "coro_bus_errno s = global_error s"

definition coro_bus_errno_set :: "coro_bus_error_code \<Rightarrow> state \<Rightarrow> state" where
  "coro_bus_errno_set err s = s\<lparr>global_error := err\<rparr>"

definition coro_wakeup :: "coro \<Rightarrow> state \<Rightarrow> state" where
  "coro_wakeup c s = s\<lparr>sched := sched s @ [Wakeup c]\<rparr>"

text \<open>
  \<open>coro_yield\<close> and \<open>coro_suspend\<close> hand control to the other coroutines; what
  they do to the state before control comes back is the parameter \<open>others\<close>.
\<close>

definition coro_yield :: "(state \<Rightarrow> state) \<Rightarrow> state \<Rightarrow> state" where
  "coro_yield others s = others (s\<lparr>sched := sched s @ [Yield]\<rparr>)"

definition coro_suspend :: "(state \<Rightarrow> state) \<Rightarrow> state \<Rightarrow> state" where
  "coro_suspend others s = others (s\<lparr>sched := sched s @ [Suspend]\<rparr>)"

text \<open>
  \<open>if (!rlist_empty(&q.coros)) coro_wakeup(rlist_first_entry(&q.coros, ...)->coro)\<close>
\<close>

definition wakeup_first :: "coro list \<Rightarrow> state \<Rightarrow> state" where
  "wakeup_first q s = (case q of [] \<Rightarrow> s | c # _ \<Rightarrow> coro_wakeup c s)"

subsection \<open>Channel lookup\<close>

text \<open>
  The id check at the top of every operation. Two spellings occur in the source:
  \<open>channel < 0 || (size_t)channel >= bus->channels.size() || bus->channels[channel] == nullptr\<close>
  (the try variants, recv and the vectorized calls) and
  \<open>channel < 0 || channel >= (int)bus->channels.size() || ...\<close> (close and send).
  Each returns the channel the slot holds, or \<open>None\<close> where the check fails.
\<close>

definition channel_at :: "state \<Rightarrow> int \<Rightarrow> coro_bus_channel option" where
  "channel_at s channel =
     (if channel < 0 \<or> length (channels s) \<le> nat channel then None
      else channels s ! nat channel)"

definition channel_at_int :: "state \<Rightarrow> int \<Rightarrow> coro_bus_channel option" where
  "channel_at_int s channel =
     (if channel < 0 \<or> int_cast (length (channels s)) \<le> channel then None
      else channels s ! nat channel)"

text \<open>A write through the pointer \<open>ch\<close> of slot \<open>channel\<close>.\<close>

definition set_channel :: "state \<Rightarrow> int \<Rightarrow> coro_bus_channel \<Rightarrow> state" where
  "set_channel s channel ch = s\<lparr>channels := (channels s)[nat channel := Some ch]\<rparr>"

subsection \<open>Bus and channel lifecycle\<close>

definition coro_bus_new :: state where
  "coro_bus_new = \<lparr>channels = [], global_error = CORO_BUS_ERR_NONE, sched = []\<rparr>"

definition new_channel :: "nat \<Rightarrow> coro_bus_channel" where
  "new_channel limit =
     \<lparr>size_limit = limit, send_queue = [], recv_queue = [], data = [], is_closed = False\<rparr>"

text \<open>The search \<open>for (i = 0; i < size; ++i) if (channels[i] == nullptr)\<close>, from index \<open>i\<close>.\<close>

fun find_free :: "coro_bus_channel option list \<Rightarrow> nat \<Rightarrow> nat option" where
  "find_free [] i = None"
| "find_free (None # cs) i = Some i"
| "find_free (Some ch # cs) i = find_free cs (Suc i)"

definition coro_bus_channel_open :: "state \<Rightarrow> nat \<Rightarrow> int \<times> state" where
  "coro_bus_channel_open s limit =
     (let channel = new_channel limit in
      case find_free (channels s) 0 of
        Some i \<Rightarrow> (int_cast i, s\<lparr>channels := (channels s)[i := Some channel]\<rparr>)
      | None \<Rightarrow>
          (let s1 = s\<lparr>channels := channels s @ [Some channel]\<rparr>
           in (int_cast (length (channels s1) - 1), s1)))"

text \<open>
  \<open>coro_bus_channel_close\<close> up to and including its call of \<open>coro_yield\<close>: the id
  check (\<open>None\<close>: the function returns at once), the flag, and one \<open>coro_wakeup\<close> for
  every entry of the send queue, then of the receive queue.
\<close>

definition close_wake :: "state \<Rightarrow> int \<Rightarrow> state option" where
  "close_wake s channel =
     (case channel_at_int s channel of
        None \<Rightarrow> None
      | Some ch \<Rightarrow>
          (let s1 = set_channel s channel (ch\<lparr>is_closed := True\<rparr>);
               s2 = fold coro_wakeup (send_queue ch) s1;
               s3 = fold coro_wakeup (recv_queue ch) s2
           in Some s3))"

text \<open>The rest of it: \<open>delete ch; bus->channels[channel] = nullptr\<close>.\<close>

definition close_free :: "state \<Rightarrow> int \<Rightarrow> state" where
  "close_free s channel = s\<lparr>channels := (channels s)[nat channel := None]\<rparr>"

definition coro_bus_channel_close :: "(state \<Rightarrow> state) \<Rightarrow> state \<Rightarrow> int \<Rightarrow> state" where
  "coro_bus_channel_close others s channel =
     (case close_wake s channel of
        None \<Rightarrow> s
      | Some s3 \<Rightarrow> close_free (coro_yield others s3) channel)"

subsection \<open>Non-blocking send and receive\<close>

definition coro_bus_try_send :: "state \<Rightarrow> int \<Rightarrow> 32 word \<Rightarrow> int \<times> state" where
  "coro_bus_try_send s channel d =
     (case channel_at s channel of
        None \<Rightarrow> (- 1, coro_bus_errno_set CORO_BUS_ERR_NO_CHANNEL s)
      | Some ch \<Rightarrow>
          if size_limit ch = length (data ch)
          then (- 1, coro_bus_errno_set CORO_BUS_ERR_WOULD_BLOCK s)
          else (0, wakeup_first (recv_queue ch)
                     (set_channel s channel (ch\<lparr>data := data ch @ [d]\<rparr>))))"

text \<open>
  The second component is the out-parameter \<open>*data\<close>: \<open>None\<close> where the call does
  not write it.
\<close>

definition coro_bus_try_recv :: "state \<Rightarrow> int \<Rightarrow> int \<times> 32 word option \<times> state" where
  "coro_bus_try_recv s channel =
     (case channel_at s channel of
        None \<Rightarrow> (- 1, None, coro_bus_errno_set CORO_BUS_ERR_NO_CHANNEL s)
      | Some ch \<Rightarrow>
          if length (data ch) = 0
          then (- 1, None, coro_bus_errno_set CORO_BUS_ERR_WOULD_BLOCK s)
          else (0, Some (hd (data ch)),
                wakeup_first (send_queue ch)
                  (set_channel s channel (ch\<lparr>data := tl (data ch)\<rparr>))))"

subsection \<open>Broadcast\<close>

text \<open>
  The first loop of \<open>coro_bus_try_broadcast\<close>, with the flag \<open>has_alive_channels\<close>
  as accumulator: \<open>None\<close> is the early return from inside the loop (a live channel
  with \<open>data.size() >= size_limit\<close>), \<open>Some\<close> the flag after the last slot.
\<close>

fun broadcast_scan :: "coro_bus_channel option list \<Rightarrow> bool \<Rightarrow> bool option" where
  "broadcast_scan [] has_alive_channels = Some has_alive_channels"
| "broadcast_scan (None # cs) has_alive_channels = broadcast_scan cs has_alive_channels"
| "broadcast_scan (Some ch # cs) has_alive_channels =
     (if is_closed ch then broadcast_scan cs has_alive_channels
      else if size_limit ch \<le> length (data ch) then None
      else broadcast_scan cs True)"

text \<open>
  The second loop: every slot that is not \<open>nullptr\<close> and not closed gets the message,
  and the head of its receive queue, if any, is woken. The result is the vector after
  the loop and the runtime calls made, in slot order.
\<close>

fun broadcast_deliver ::
  "32 word \<Rightarrow> coro_bus_channel option list \<Rightarrow> coro_bus_channel option list \<times> sched_call list"
where
  "broadcast_deliver d [] = ([], [])"
| "broadcast_deliver d (None # cs) =
     (case broadcast_deliver d cs of (cs', w) \<Rightarrow> (None # cs', w))"
| "broadcast_deliver d (Some ch # cs) =
     (case broadcast_deliver d cs of (cs', w) \<Rightarrow>
        if \<not> is_closed ch
        then (Some (ch\<lparr>data := data ch @ [d]\<rparr>) # cs',
              (case recv_queue ch of [] \<Rightarrow> [] | c # _ \<Rightarrow> [Wakeup c]) @ w)
        else (Some ch # cs', w))"

definition coro_bus_try_broadcast :: "state \<Rightarrow> 32 word \<Rightarrow> int \<times> state" where
  "coro_bus_try_broadcast s d =
     (case broadcast_scan (channels s) False of
        None \<Rightarrow> (- 1, coro_bus_errno_set CORO_BUS_ERR_WOULD_BLOCK s)
      | Some has_alive_channels \<Rightarrow>
          if \<not> has_alive_channels
          then (- 1, coro_bus_errno_set CORO_BUS_ERR_NO_CHANNEL s)
          else (case broadcast_deliver d (channels s) of (cs', w) \<Rightarrow>
                  (0, s\<lparr>channels := cs', sched := sched s @ w\<rparr>)))"

subsection \<open>Vectorized send and receive\<close>

text \<open>
  The buffer \<open>const unsigned *data\<close> with its \<open>count\<close> is the list \<open>buf\<close>, of
  length \<open>count\<close>. The copy loop
  \<open>while (send_c < count && ch->data.size() != ch->size_limit)\<close> returns the counter
  and the channel.
\<close>

function send_v_loop ::
  "nat \<Rightarrow> 32 word list \<Rightarrow> coro_bus_channel \<Rightarrow> nat \<times> coro_bus_channel"
where
  "send_v_loop send_c buf ch =
     (if send_c < length buf \<and> length (data ch) \<noteq> size_limit ch
      then send_v_loop (send_c + 1) buf (ch\<lparr>data := data ch @ [buf ! send_c]\<rparr>)
      else (send_c, ch))"
  by pat_completeness auto
termination
  by (relation "measure (\<lambda>(send_c, buf, ch). length buf - send_c)") auto

declare send_v_loop.simps [simp del]

definition coro_bus_try_send_v :: "state \<Rightarrow> int \<Rightarrow> 32 word list \<Rightarrow> int \<times> state" where
  "coro_bus_try_send_v s channel buf =
     (case channel_at s channel of
        None \<Rightarrow> (- 1, coro_bus_errno_set CORO_BUS_ERR_NO_CHANNEL s)
      | Some ch \<Rightarrow>
          if size_limit ch = length (data ch)
          then (- 1, coro_bus_errno_set CORO_BUS_ERR_WOULD_BLOCK s)
          else (case send_v_loop 0 buf ch of (send_c, ch') \<Rightarrow>
                  (int_cast send_c,
                   wakeup_first (recv_queue ch') (set_channel s channel ch'))))"

text \<open>
  The receive loop \<open>while (recv_c < capacity && ch->data.size() != 0)\<close>; \<open>out\<close> is
  what has been written to \<open>data[0 .. recv_c - 1]\<close>.
\<close>

function recv_v_loop ::
  "nat \<Rightarrow> nat \<Rightarrow> 32 word list \<Rightarrow> coro_bus_channel \<Rightarrow> nat \<times> 32 word list \<times> coro_bus_channel"
where
  "recv_v_loop recv_c capacity out ch =
     (if recv_c < capacity \<and> length (data ch) \<noteq> 0
      then recv_v_loop (recv_c + 1) capacity (out @ [hd (data ch)]) (ch\<lparr>data := tl (data ch)\<rparr>)
      else (recv_c, out, ch))"
  by pat_completeness auto
termination
  by (relation "measure (\<lambda>(recv_c, capacity, out, ch). capacity - recv_c)") auto

declare recv_v_loop.simps [simp del]

definition coro_bus_try_recv_v :: "state \<Rightarrow> int \<Rightarrow> nat \<Rightarrow> int \<times> 32 word list \<times> state" where
  "coro_bus_try_recv_v s channel capacity =
     (case channel_at s channel of
        None \<Rightarrow> (- 1, [], coro_bus_errno_set CORO_BUS_ERR_NO_CHANNEL s)
      | Some ch \<Rightarrow>
          if length (data ch) = 0
          then (- 1, [], coro_bus_errno_set CORO_BUS_ERR_WOULD_BLOCK s)
          else (case recv_v_loop 0 capacity [] ch of (recv_c, out, ch') \<Rightarrow>
                  (int_cast recv_c, out,
                   wakeup_first (send_queue ch') (set_channel s channel ch'))))"

subsection \<open>Blocking operations\<close>

text \<open>
  A blocking operation is a \<open>while (true)\<close> loop around its try variant. One pass
  through the loop body ends in a \<open>return\<close> (\<open>Finished\<close>, with the returned value),
  at the call of \<open>coro_suspend\<close> with the caller's \<open>wakeup_entry\<close> linked into the
  queue of a slot (\<open>Parked\<close>, with that slot), or at the end of the body with no branch
  taken (\<open>Again\<close>).
\<close>

datatype 'r attempt = Finished 'r state | Parked int state | Again state

text \<open>
  The loop runs with fuel, one unit per pass. The local pointer \<open>ch\<close> is read once,
  before the loop, from slot \<open>channel\<close>; the loop follows it by reading that slot. A
  slot found empty means the channel was deleted while the caller still holds \<open>ch\<close>
  (and, after \<open>coro_suspend\<close>, while its entry is still linked): the C++ behaviour is
  undefined. A channel deleted and replaced by a new one in the same slot during a
  suspension is not told apart from the old one; the close protocol (wake every waiter,
  yield, only then delete) is what keeps a suspended caller's channel in its slot until
  the caller has run.
\<close>

datatype 'r run = Returned 'r state | Out_of_fuel | Undefined_behaviour

text \<open>\<open>rlist_add_tail(&ch->send_queue.coros, &we.base)\<close> and \<open>rlist_del(&we.base)\<close>.\<close>

definition link_send :: "state \<Rightarrow> int \<Rightarrow> coro \<Rightarrow> state" where
  "link_send s channel me =
     (case channel_at s channel of
        None \<Rightarrow> s
      | Some ch \<Rightarrow> set_channel s channel (ch\<lparr>send_queue := send_queue ch @ [me]\<rparr>))"

definition link_recv :: "state \<Rightarrow> int \<Rightarrow> coro \<Rightarrow> state" where
  "link_recv s channel me =
     (case channel_at s channel of
        None \<Rightarrow> s
      | Some ch \<Rightarrow> set_channel s channel (ch\<lparr>recv_queue := recv_queue ch @ [me]\<rparr>))"

definition unlink_send :: "state \<Rightarrow> int \<Rightarrow> coro \<Rightarrow> state" where
  "unlink_send s channel me =
     (case channel_at s channel of
        None \<Rightarrow> s
      | Some ch \<Rightarrow> set_channel s channel (ch\<lparr>send_queue := remove1 me (send_queue ch)\<rparr>))"

definition unlink_recv :: "state \<Rightarrow> int \<Rightarrow> coro \<Rightarrow> state" where
  "unlink_recv s channel me =
     (case channel_at s channel of
        None \<Rightarrow> s
      | Some ch \<Rightarrow> set_channel s channel (ch\<lparr>recv_queue := remove1 me (recv_queue ch)\<rparr>))"

text \<open>
  The wakeups after a successful transfer:
  \<open>if (!rlist_empty(&ch->send_queue.coros) && ch->data.size() < ch->size_limit)\<close> and
  \<open>if (!rlist_empty(&ch->recv_queue.coros) && ch->data.size() > 0)\<close>.
\<close>

definition wake_next_sender :: "state \<Rightarrow> int \<Rightarrow> state" where
  "wake_next_sender s channel =
     (case channel_at s channel of
        None \<Rightarrow> s
      | Some ch \<Rightarrow>
          if send_queue ch \<noteq> [] \<and> length (data ch) < size_limit ch
          then coro_wakeup (hd (send_queue ch)) s else s)"

definition wake_next_receiver :: "state \<Rightarrow> int \<Rightarrow> state" where
  "wake_next_receiver s channel =
     (case channel_at s channel of
        None \<Rightarrow> s
      | Some ch \<Rightarrow>
          if recv_queue ch \<noteq> [] \<and> length (data ch) > 0
          then coro_wakeup (hd (recv_queue ch)) s else s)"

text \<open>One pass of the loop of \<open>coro_bus_send\<close>; \<open>ch\<close> is the channel the pointer leads to.\<close>

definition send_attempt ::
  "coro \<Rightarrow> state \<Rightarrow> int \<Rightarrow> 32 word \<Rightarrow> coro_bus_channel \<Rightarrow> int attempt"
where
  "send_attempt me s channel d ch =
     (if is_closed ch then Finished (- 1) (coro_bus_errno_set CORO_BUS_ERR_NO_CHANNEL s)
      else (case coro_bus_try_send s channel d of (result, s1) \<Rightarrow>
        if result = - 1 \<and> coro_bus_errno s1 = CORO_BUS_ERR_NO_CHANNEL
        then Finished (- 1) s1
        else if result = - 1 \<and> coro_bus_errno s1 = CORO_BUS_ERR_WOULD_BLOCK
        then Parked channel (link_send s1 channel me)
        else if result = 0 then Finished 0 (wake_next_sender s1 channel)
        else Again s1))"

fun send_loop ::
  "nat \<Rightarrow> (nat \<Rightarrow> state \<Rightarrow> state) \<Rightarrow> coro \<Rightarrow> state \<Rightarrow> int \<Rightarrow> 32 word \<Rightarrow> int run"
where
  "send_loop 0 others me s channel d = Out_of_fuel"
| "send_loop (Suc n) others me s channel d =
     (case channel_at s channel of
        None \<Rightarrow> Undefined_behaviour
      | Some ch \<Rightarrow>
          (case send_attempt me s channel d ch of
             Finished r s' \<Rightarrow> Returned r s'
           | Again s' \<Rightarrow> send_loop n others me s' channel d
           | Parked c s' \<Rightarrow>
               send_loop n others me
                 (unlink_send (coro_suspend (others n) s') c me) channel d))"

definition coro_bus_send ::
  "nat \<Rightarrow> (nat \<Rightarrow> state \<Rightarrow> state) \<Rightarrow> coro \<Rightarrow> state \<Rightarrow> int \<Rightarrow> 32 word \<Rightarrow> int run"
where
  "coro_bus_send fuel others me s channel d =
     (case channel_at_int s channel of
        None \<Rightarrow> Returned (- 1) (coro_bus_errno_set CORO_BUS_ERR_NO_CHANNEL s)
      | Some ch \<Rightarrow> send_loop fuel others me s channel d)"

text \<open>\<open>coro_bus_recv\<close>; the returned pair is the result and what was written to \<open>*data\<close>.\<close>

definition recv_attempt ::
  "coro \<Rightarrow> state \<Rightarrow> int \<Rightarrow> coro_bus_channel \<Rightarrow> (int \<times> 32 word option) attempt"
where
  "recv_attempt me s channel ch =
     (if is_closed ch
      then Finished (- 1, None) (coro_bus_errno_set CORO_BUS_ERR_NO_CHANNEL s)
      else (case coro_bus_try_recv s channel of (result, out, s1) \<Rightarrow>
        if result = - 1 \<and> coro_bus_errno s1 = CORO_BUS_ERR_NO_CHANNEL
        then Finished (- 1, out) s1
        else if result = - 1 \<and> coro_bus_errno s1 = CORO_BUS_ERR_WOULD_BLOCK
        then Parked channel (link_recv s1 channel me)
        else if result = 0 then Finished (0, out) (wake_next_receiver s1 channel)
        else Again s1))"

fun recv_loop ::
  "nat \<Rightarrow> (nat \<Rightarrow> state \<Rightarrow> state) \<Rightarrow> coro \<Rightarrow> state \<Rightarrow> int \<Rightarrow> (int \<times> 32 word option) run"
where
  "recv_loop 0 others me s channel = Out_of_fuel"
| "recv_loop (Suc n) others me s channel =
     (case channel_at s channel of
        None \<Rightarrow> Undefined_behaviour
      | Some ch \<Rightarrow>
          (case recv_attempt me s channel ch of
             Finished r s' \<Rightarrow> Returned r s'
           | Again s' \<Rightarrow> recv_loop n others me s' channel
           | Parked c s' \<Rightarrow>
               recv_loop n others me
                 (unlink_recv (coro_suspend (others n) s') c me) channel))"

definition coro_bus_recv ::
  "nat \<Rightarrow> (nat \<Rightarrow> state \<Rightarrow> state) \<Rightarrow> coro \<Rightarrow> state \<Rightarrow> int \<Rightarrow> (int \<times> 32 word option) run"
where
  "coro_bus_recv fuel others me s channel =
     (case channel_at s channel of
        None \<Rightarrow> Returned (- 1, None) (coro_bus_errno_set CORO_BUS_ERR_NO_CHANNEL s)
      | Some ch \<Rightarrow> recv_loop fuel others me s channel)"

text \<open>\<open>coro_bus_send_v\<close>: the success branch is \<open>result >= 0\<close>.\<close>

definition send_v_attempt ::
  "coro \<Rightarrow> state \<Rightarrow> int \<Rightarrow> 32 word list \<Rightarrow> coro_bus_channel \<Rightarrow> int attempt"
where
  "send_v_attempt me s channel buf ch =
     (if is_closed ch then Finished (- 1) (coro_bus_errno_set CORO_BUS_ERR_NO_CHANNEL s)
      else (case coro_bus_try_send_v s channel buf of (result, s1) \<Rightarrow>
        if result = - 1 \<and> coro_bus_errno s1 = CORO_BUS_ERR_NO_CHANNEL
        then Finished (- 1) s1
        else if result = - 1 \<and> coro_bus_errno s1 = CORO_BUS_ERR_WOULD_BLOCK
        then Parked channel (link_send s1 channel me)
        else if result \<ge> 0 then Finished result (wake_next_sender s1 channel)
        else Again s1))"

fun send_v_loop_blocking ::
  "nat \<Rightarrow> (nat \<Rightarrow> state \<Rightarrow> state) \<Rightarrow> coro \<Rightarrow> state \<Rightarrow> int \<Rightarrow> 32 word list \<Rightarrow> int run"
where
  "send_v_loop_blocking 0 others me s channel buf = Out_of_fuel"
| "send_v_loop_blocking (Suc n) others me s channel buf =
     (case channel_at s channel of
        None \<Rightarrow> Undefined_behaviour
      | Some ch \<Rightarrow>
          (case send_v_attempt me s channel buf ch of
             Finished r s' \<Rightarrow> Returned r s'
           | Again s' \<Rightarrow> send_v_loop_blocking n others me s' channel buf
           | Parked c s' \<Rightarrow>
               send_v_loop_blocking n others me
                 (unlink_send (coro_suspend (others n) s') c me) channel buf))"

definition coro_bus_send_v ::
  "nat \<Rightarrow> (nat \<Rightarrow> state \<Rightarrow> state) \<Rightarrow> coro \<Rightarrow> state \<Rightarrow> int \<Rightarrow> 32 word list \<Rightarrow> int run"
where
  "coro_bus_send_v fuel others me s channel buf =
     (case channel_at s channel of
        None \<Rightarrow> Returned (- 1) (coro_bus_errno_set CORO_BUS_ERR_NO_CHANNEL s)
      | Some ch \<Rightarrow> send_v_loop_blocking fuel others me s channel buf)"

text \<open>\<open>coro_bus_recv_v\<close>; the returned pair is the result and what was written to \<open>data\<close>.\<close>

definition recv_v_attempt ::
  "coro \<Rightarrow> state \<Rightarrow> int \<Rightarrow> nat \<Rightarrow> coro_bus_channel \<Rightarrow> (int \<times> 32 word list) attempt"
where
  "recv_v_attempt me s channel capacity ch =
     (if is_closed ch
      then Finished (- 1, []) (coro_bus_errno_set CORO_BUS_ERR_NO_CHANNEL s)
      else (case coro_bus_try_recv_v s channel capacity of (result, out, s1) \<Rightarrow>
        if result = - 1 \<and> coro_bus_errno s1 = CORO_BUS_ERR_NO_CHANNEL
        then Finished (- 1, out) s1
        else if result = - 1 \<and> coro_bus_errno s1 = CORO_BUS_ERR_WOULD_BLOCK
        then Parked channel (link_recv s1 channel me)
        else if result \<ge> 0 then Finished (result, out) (wake_next_receiver s1 channel)
        else Again s1))"

fun recv_v_loop_blocking ::
  "nat \<Rightarrow> (nat \<Rightarrow> state \<Rightarrow> state) \<Rightarrow> coro \<Rightarrow> state \<Rightarrow> int \<Rightarrow> nat
     \<Rightarrow> (int \<times> 32 word list) run"
where
  "recv_v_loop_blocking 0 others me s channel capacity = Out_of_fuel"
| "recv_v_loop_blocking (Suc n) others me s channel capacity =
     (case channel_at s channel of
        None \<Rightarrow> Undefined_behaviour
      | Some ch \<Rightarrow>
          (case recv_v_attempt me s channel capacity ch of
             Finished r s' \<Rightarrow> Returned r s'
           | Again s' \<Rightarrow> recv_v_loop_blocking n others me s' channel capacity
           | Parked c s' \<Rightarrow>
               recv_v_loop_blocking n others me
                 (unlink_recv (coro_suspend (others n) s') c me) channel capacity))"

definition coro_bus_recv_v ::
  "nat \<Rightarrow> (nat \<Rightarrow> state \<Rightarrow> state) \<Rightarrow> coro \<Rightarrow> state \<Rightarrow> int \<Rightarrow> nat
     \<Rightarrow> (int \<times> 32 word list) run"
where
  "coro_bus_recv_v fuel others me s channel capacity =
     (case channel_at s channel of
        None \<Rightarrow> Returned (- 1, []) (coro_bus_errno_set CORO_BUS_ERR_NO_CHANNEL s)
      | Some ch \<Rightarrow> recv_v_loop_blocking fuel others me s channel capacity)"

text \<open>
  \<open>coro_bus_broadcast\<close>. The search for \<open>blocking_ch\<close> returns the index of the first
  slot that is not \<open>nullptr\<close>, not closed and has \<open>size_limit == data.size()\<close>.
\<close>

fun find_blocking :: "coro_bus_channel option list \<Rightarrow> nat \<Rightarrow> nat option" where
  "find_blocking [] i = None"
| "find_blocking (None # cs) i = find_blocking cs (Suc i)"
| "find_blocking (Some ch # cs) i =
     (if \<not> is_closed ch \<and> size_limit ch = length (data ch) then Some i
      else find_blocking cs (Suc i))"

text \<open>The loop over all channels after a successful broadcast.\<close>

fun wake_senders :: "coro_bus_channel option list \<Rightarrow> state \<Rightarrow> state" where
  "wake_senders [] s = s"
| "wake_senders (None # cs) s = wake_senders cs s"
| "wake_senders (Some ch # cs) s =
     wake_senders cs
       (if send_queue ch \<noteq> [] \<and> length (data ch) < size_limit ch
        then coro_wakeup (hd (send_queue ch)) s else s)"

definition broadcast_attempt :: "coro \<Rightarrow> state \<Rightarrow> 32 word \<Rightarrow> int attempt" where
  "broadcast_attempt me s d =
     (case coro_bus_try_broadcast s d of (result, s1) \<Rightarrow>
        if result = - 1 \<and> coro_bus_errno s1 = CORO_BUS_ERR_NO_CHANNEL
        then Finished (- 1) s1
        else if result = - 1 \<and> coro_bus_errno s1 = CORO_BUS_ERR_WOULD_BLOCK
        then (case find_blocking (channels s1) 0 of
                None \<Rightarrow> Finished (- 1) s1
              | Some i \<Rightarrow> Parked (int i) (link_send s1 (int i) me))
        else if result = 0 then Finished 0 (wake_senders (channels s1) s1)
        else Again s1)"

fun coro_bus_broadcast ::
  "nat \<Rightarrow> (nat \<Rightarrow> state \<Rightarrow> state) \<Rightarrow> coro \<Rightarrow> state \<Rightarrow> 32 word \<Rightarrow> int run"
where
  "coro_bus_broadcast 0 others me s d = Out_of_fuel"
| "coro_bus_broadcast (Suc n) others me s d =
     (case broadcast_attempt me s d of
        Finished r s' \<Rightarrow> Returned r s'
      | Again s' \<Rightarrow> coro_bus_broadcast n others me s' d
      | Parked c s' \<Rightarrow>
          (let s'' = coro_suspend (others n) s' in
           case channel_at s'' c of
             None \<Rightarrow> Undefined_behaviour
           | Some ch \<Rightarrow> coro_bus_broadcast n others me (unlink_send s'' c me) d))"

subsection \<open>Reachable states\<close>

text \<open>
  Coroutines are scheduled cooperatively, so the code between two calls of
  \<open>coro_suspend\<close> or \<open>coro_yield\<close> runs without interruption. An action is one such
  stretch of one operation: a whole non-blocking operation, one pass of a blocking
  loop, the unlinking after a wakeup, or one of the two halves of a close.
\<close>

datatype action =
    Errno_set coro_bus_error_code
  | Runtime sched_call
  | Channel_open nat
  | Close_wake int
  | Close_free int
  | Try_send int "32 word"
  | Try_recv int
  | Try_broadcast "32 word"
  | Try_send_v int "32 word list"
  | Try_recv_v int nat
  | Send_attempt coro int "32 word"
  | Recv_attempt coro int
  | Send_v_attempt coro int "32 word list"
  | Recv_v_attempt coro int nat
  | Broadcast_attempt coro "32 word"
  | Unlink_send coro int
  | Unlink_recv coro int

fun attempt_state :: "'r attempt \<Rightarrow> state" where
  "attempt_state (Finished r s) = s"
| "attempt_state (Parked c s) = s"
| "attempt_state (Again s) = s"

fun exec :: "action \<Rightarrow> state \<Rightarrow> state" where
  "exec (Errno_set e) s = coro_bus_errno_set e s"
| "exec (Runtime c) s = s\<lparr>sched := sched s @ [c]\<rparr>"
| "exec (Channel_open limit) s = snd (coro_bus_channel_open s limit)"
| "exec (Close_wake channel) s = (case close_wake s channel of None \<Rightarrow> s | Some s' \<Rightarrow> s')"
| "exec (Close_free channel) s = close_free s channel"
| "exec (Try_send channel d) s = snd (coro_bus_try_send s channel d)"
| "exec (Try_recv channel) s = snd (snd (coro_bus_try_recv s channel))"
| "exec (Try_broadcast d) s = snd (coro_bus_try_broadcast s d)"
| "exec (Try_send_v channel buf) s = snd (coro_bus_try_send_v s channel buf)"
| "exec (Try_recv_v channel capacity) s = snd (snd (coro_bus_try_recv_v s channel capacity))"
| "exec (Send_attempt me channel d) s =
     (case channel_at s channel of None \<Rightarrow> s
      | Some ch \<Rightarrow> attempt_state (send_attempt me s channel d ch))"
| "exec (Recv_attempt me channel) s =
     (case channel_at s channel of None \<Rightarrow> s
      | Some ch \<Rightarrow> attempt_state (recv_attempt me s channel ch))"
| "exec (Send_v_attempt me channel buf) s =
     (case channel_at s channel of None \<Rightarrow> s
      | Some ch \<Rightarrow> attempt_state (send_v_attempt me s channel buf ch))"
| "exec (Recv_v_attempt me channel capacity) s =
     (case channel_at s channel of None \<Rightarrow> s
      | Some ch \<Rightarrow> attempt_state (recv_v_attempt me s channel capacity ch))"
| "exec (Broadcast_attempt me d) s = attempt_state (broadcast_attempt me s d)"
| "exec (Unlink_send me channel) s = unlink_send s channel me"
| "exec (Unlink_recv me channel) s = unlink_recv s channel me"

inductive reachable :: "state \<Rightarrow> bool" where
  initial: "reachable coro_bus_new"
| step: "reachable s \<Longrightarrow> reachable (exec a s)"

text \<open>Invariant I1 of the data model: no queue is longer than its channel's limit.\<close>

fun within_limit :: "coro_bus_channel option \<Rightarrow> bool" where
  "within_limit None = True"
| "within_limit (Some ch) = (length (data ch) \<le> size_limit ch)"

definition bounded :: "state \<Rightarrow> bool" where
  "bounded s = list_all within_limit (channels s)"

text \<open>
  The words the bus's description uses for a slot: it is live when it holds a channel that
  is not closed, and full when it holds a channel whose queue is as long as its limit.
\<close>

fun live_slot :: "coro_bus_channel option \<Rightarrow> bool" where
  "live_slot None = False"
| "live_slot (Some ch) = (\<not> is_closed ch)"

fun full_slot :: "coro_bus_channel option \<Rightarrow> bool" where
  "full_slot None = False"
| "full_slot (Some ch) = (length (data ch) = size_limit ch)"

text \<open>What a broadcast of \<open>d\<close> does to one slot.\<close>

fun with_message :: "32 word \<Rightarrow> coro_bus_channel option \<Rightarrow> coro_bus_channel option" where
  "with_message d None = None"
| "with_message d (Some ch) =
     (if is_closed ch then Some ch else Some (ch\<lparr>data := data ch @ [d]\<rparr>))"

section \<open>Basic facts\<close>

lemma int_cast_small: "n < 2 ^ 31 \<Longrightarrow> int_cast n = int n"
proof -
  assume "n < 2 ^ 31"
  then have "int n < 2 ^ 31" by (metis of_nat_less_iff of_nat_numeral of_nat_power)
  then have "signed_take_bit 31 (int n) = int n"
    by (simp add: signed_take_bit_int_eq_self)
  moreover have "word_of_nat n = (word_of_int (int n) :: 32 word)" by simp
  ultimately show ?thesis
    unfolding int_cast_def by (simp only: sint_sbintrunc') simp
qed

lemma channels_errno_set [simp]: "channels (coro_bus_errno_set e s) = channels s"
  by (simp add: coro_bus_errno_set_def)

lemma sched_errno_set [simp]: "sched (coro_bus_errno_set e s) = sched s"
  by (simp add: coro_bus_errno_set_def)

lemma global_error_errno_set [simp]: "global_error (coro_bus_errno_set e s) = e"
  by (simp add: coro_bus_errno_set_def)

lemma channels_coro_wakeup [simp]: "channels (coro_wakeup c s) = channels s"
  by (simp add: coro_wakeup_def)

lemma global_error_coro_wakeup [simp]: "global_error (coro_wakeup c s) = global_error s"
  by (simp add: coro_wakeup_def)

lemma channels_wakeup_first [simp]: "channels (wakeup_first q s) = channels s"
  by (simp add: wakeup_first_def split: list.splits)

lemma global_error_wakeup_first [simp]: "global_error (wakeup_first q s) = global_error s"
  by (simp add: wakeup_first_def split: list.splits)

lemma channels_fold_wakeup [simp]: "channels (fold coro_wakeup q s) = channels s"
  by (induction q arbitrary: s) simp_all

lemma global_error_fold_wakeup [simp]:
  "global_error (fold coro_wakeup q s) = global_error s"
  by (induction q arbitrary: s) simp_all

lemma sched_fold_wakeup: "sched (fold coro_wakeup q s) = sched s @ map Wakeup q"
  by (induction q arbitrary: s) (simp_all add: coro_wakeup_def)

lemma channels_set_channel [simp]:
  "channels (set_channel s channel ch) = (channels s)[nat channel := Some ch]"
  by (simp add: set_channel_def)

lemma global_error_set_channel [simp]:
  "global_error (set_channel s channel ch) = global_error s"
  by (simp add: set_channel_def)

lemma sched_set_channel [simp]: "sched (set_channel s channel ch) = sched s"
  by (simp add: set_channel_def)

lemma channel_at_SomeD:
  "channel_at s channel = Some ch \<Longrightarrow>
     0 \<le> channel \<and> nat channel < length (channels s) \<and> channels s ! nat channel = Some ch"
  by (simp add: channel_at_def split: if_splits)

lemma channel_at_errno_set [simp]:
  "channel_at (coro_bus_errno_set e s) channel = channel_at s channel"
  by (simp add: channel_at_def)

text \<open>The \<open>(int)\<close> spelling of the id check never lets an index past the end of the vector.\<close>

lemma int_cast_le: "int_cast n \<le> int n"
proof -
  have "int_cast n = signed_take_bit 31 (uint (word_of_nat n :: 32 word))"
    unfolding int_cast_def by (simp add: sint_uint)
  also have "\<dots> \<le> uint (word_of_nat n :: 32 word)"
  proof -
    have "- (2 ^ 31) \<le> (0::int)" by simp
    also have "(0::int) \<le> uint (word_of_nat n :: 32 word)" by (rule uint_ge_0)
    finally have "- (2 ^ 31) \<le> uint (word_of_nat n :: 32 word)" .
    then show ?thesis by (simp only: signed_take_bit_int_less_eq_self_iff)
  qed
  also have "\<dots> = int (n mod 2 ^ 32)"
    by (simp add: uint_nat unat_of_nat)
  also have "\<dots> \<le> int n"
    by simp
  finally show ?thesis .
qed

lemma channel_at_int_SomeD:
  assumes "channel_at_int s channel = Some ch"
  shows "0 \<le> channel \<and> nat channel < length (channels s) \<and> channels s ! nat channel = Some ch"
proof -
  from assms have c: "0 \<le> channel" "channel < int_cast (length (channels s))"
    and v: "channels s ! nat channel = Some ch"
    by (simp_all add: channel_at_int_def split: if_splits)
  from c(2) int_cast_le [of "length (channels s)"] have "channel < int (length (channels s))"
    by linarith
  with c(1) v show ?thesis by simp
qed

lemma channel_at_int_imp_channel_at:
  "channel_at_int s channel = Some ch \<Longrightarrow> channel_at s channel = Some ch"
  by (drule channel_at_int_SomeD) (simp add: channel_at_def)

section \<open>Non-blocking send and receive\<close>

lemma try_send_no_channel:
  "channel_at s channel = None \<Longrightarrow>
     coro_bus_try_send s channel d = (- 1, coro_bus_errno_set CORO_BUS_ERR_NO_CHANNEL s)"
  by (simp add: coro_bus_try_send_def)

lemma try_send_full:
  "channel_at s channel = Some ch \<Longrightarrow> size_limit ch = length (data ch) \<Longrightarrow>
     coro_bus_try_send s channel d = (- 1, coro_bus_errno_set CORO_BUS_ERR_WOULD_BLOCK s)"
  by (simp add: coro_bus_try_send_def)

text \<open>The closed flag plays no part in \<open>coro_bus_try_send\<close>.\<close>

lemma try_send_room:
  "channel_at s channel = Some ch \<Longrightarrow> size_limit ch \<noteq> length (data ch) \<Longrightarrow>
     coro_bus_try_send s channel d =
       (0, wakeup_first (recv_queue ch) (set_channel s channel (ch\<lparr>data := data ch @ [d]\<rparr>)))"
  by (simp add: coro_bus_try_send_def)

lemma try_recv_no_channel:
  "channel_at s channel = None \<Longrightarrow>
     coro_bus_try_recv s channel = (- 1, None, coro_bus_errno_set CORO_BUS_ERR_NO_CHANNEL s)"
  by (simp add: coro_bus_try_recv_def)

text \<open>An empty queue gives \<open>WOULD_BLOCK\<close>, whatever the closed flag says.\<close>

lemma try_recv_empty:
  "channel_at s channel = Some ch \<Longrightarrow> data ch = [] \<Longrightarrow>
     coro_bus_try_recv s channel = (- 1, None, coro_bus_errno_set CORO_BUS_ERR_WOULD_BLOCK s)"
  by (simp add: coro_bus_try_recv_def)

lemma try_recv_nonempty:
  "channel_at s channel = Some ch \<Longrightarrow> data ch = x # xs \<Longrightarrow>
     coro_bus_try_recv s channel =
       (0, Some x, wakeup_first (send_queue ch) (set_channel s channel (ch\<lparr>data := xs\<rparr>)))"
  by (simp add: coro_bus_try_recv_def)

text \<open>
  Claim C1. On a channel with \<open>is_closed = true\<close>, \<open>try_send\<close> should fail with
  \<open>NO_CHANNEL\<close> and enqueue nothing. The state below is the one a closer leaves while
  it waits in \<open>coro_yield\<close> (first conjunct); \<open>coro_bus_try_send\<close> called there by
  another coroutine returns 0 and enqueues the message, and the error slot is untouched.
\<close>

theorem try_send_on_closed_channel:
  "close_wake (snd (coro_bus_channel_open coro_bus_new 1)) 0 =
     Some \<lparr>channels = [Some \<lparr>size_limit = 1, send_queue = [], recv_queue = [], data = [],
                               is_closed = True\<rparr>],
           global_error = CORO_BUS_ERR_NONE, sched = []\<rparr>
   \<and> coro_bus_try_send
       \<lparr>channels = [Some \<lparr>size_limit = 1, send_queue = [], recv_queue = [], data = [],
                            is_closed = True\<rparr>],
        global_error = CORO_BUS_ERR_NONE, sched = []\<rparr> 0 7 =
     (0, \<lparr>channels = [Some \<lparr>size_limit = 1, send_queue = [], recv_queue = [], data = [7],
                               is_closed = True\<rparr>],
           global_error = CORO_BUS_ERR_NONE, sched = []\<rparr>)"
  by (simp add: close_wake_def coro_bus_channel_open_def coro_bus_new_def new_channel_def
      channel_at_int_def channel_at_def set_channel_def coro_bus_try_send_def wakeup_first_def
      int_cast_def)

text \<open>
  Claim C2. On a closed channel with an empty queue, \<open>try_recv\<close> should fail with
  \<open>NO_CHANNEL\<close>. In the same state as above \<open>coro_bus_try_recv\<close> returns -1 and writes
  nothing, but the error it sets is \<open>WOULD_BLOCK\<close>.
\<close>

theorem try_recv_on_closed_empty_channel:
  "coro_bus_try_recv
       \<lparr>channels = [Some \<lparr>size_limit = 1, send_queue = [], recv_queue = [], data = [],
                            is_closed = True\<rparr>],
        global_error = CORO_BUS_ERR_NONE, sched = []\<rparr> 0 =
     (- 1, None,
      \<lparr>channels = [Some \<lparr>size_limit = 1, send_queue = [], recv_queue = [], data = [],
                            is_closed = True\<rparr>],
       global_error = CORO_BUS_ERR_WOULD_BLOCK, sched = []\<rparr>)"
  by (simp add: channel_at_def coro_bus_try_recv_def coro_bus_errno_set_def)

section \<open>Broadcast\<close>

text \<open>
  The scan returns early exactly when some live channel has reached its limit; otherwise
  its flag tells whether a live channel was seen.
\<close>

lemma broadcast_scan_None:
  "broadcast_scan cs a = None \<longleftrightarrow>
     (\<exists>ch. Some ch \<in> set cs \<and> \<not> is_closed ch \<and> size_limit ch \<le> length (data ch))"
  by (induction cs a rule: broadcast_scan.induct) auto

lemma broadcast_scan_Some:
  "broadcast_scan cs a = Some b \<Longrightarrow> b = (a \<or> (\<exists>c \<in> set cs. live_slot c))"
  by (induction cs a arbitrary: b rule: broadcast_scan.induct) (auto split: if_splits)

lemma broadcast_deliver_channels: "fst (broadcast_deliver d cs) = map (with_message d) cs"
  by (induction d cs rule: broadcast_deliver.induct) (auto split: prod.splits)

text \<open>Under I1 a live channel at or over its limit is a full one.\<close>

lemma over_limit_iff_full:
  assumes "list_all within_limit cs"
  shows "(\<exists>ch. Some ch \<in> set cs \<and> \<not> is_closed ch \<and> size_limit ch \<le> length (data ch))
           \<longleftrightarrow> (\<exists>c \<in> set cs. live_slot c \<and> full_slot c)"
proof
  assume "\<exists>ch. Some ch \<in> set cs \<and> \<not> is_closed ch \<and> size_limit ch \<le> length (data ch)"
  then obtain ch where ch: "Some ch \<in> set cs" "\<not> is_closed ch" "size_limit ch \<le> length (data ch)"
    by blast
  from assms ch(1) have "within_limit (Some ch)" unfolding list_all_iff by blast
  with ch(3) have "length (data ch) = size_limit ch" by simp
  with ch(1,2) have "live_slot (Some ch) \<and> full_slot (Some ch)" by simp
  with ch(1) show "\<exists>c \<in> set cs. live_slot c \<and> full_slot c" by blast
next
  assume "\<exists>c \<in> set cs. live_slot c \<and> full_slot c"
  then obtain c where c: "c \<in> set cs" "live_slot c" "full_slot c" by blast
  from c(2) obtain ch where "c = Some ch" by (cases c) auto
  with c show "\<exists>ch. Some ch \<in> set cs \<and> \<not> is_closed ch \<and> size_limit ch \<le> length (data ch)"
    by auto
qed

lemma try_broadcast_no_live:
  assumes "\<not> (\<exists>c \<in> set (channels s). live_slot c)"
  shows "coro_bus_try_broadcast s d = (- 1, coro_bus_errno_set CORO_BUS_ERR_NO_CHANNEL s)"
proof -
  from assms have "\<not> (\<exists>ch. Some ch \<in> set (channels s) \<and> \<not> is_closed ch
      \<and> size_limit ch \<le> length (data ch))"
    by (metis live_slot.simps(2))
  then obtain b where b: "broadcast_scan (channels s) False = Some b"
    using broadcast_scan_None [of "channels s" False] by (cases "broadcast_scan (channels s) False") auto
  from broadcast_scan_Some [OF b] assms have "\<not> b" by simp
  with b show ?thesis by (simp add: coro_bus_try_broadcast_def)
qed

lemma try_broadcast_over_limit:
  assumes "\<exists>ch. Some ch \<in> set (channels s) \<and> \<not> is_closed ch \<and> size_limit ch \<le> length (data ch)"
  shows "coro_bus_try_broadcast s d = (- 1, coro_bus_errno_set CORO_BUS_ERR_WOULD_BLOCK s)"
proof -
  from assms have "broadcast_scan (channels s) False = None"
    by (simp only: broadcast_scan_None)
  then show ?thesis by (simp add: coro_bus_try_broadcast_def)
qed

lemma try_broadcast_delivers:
  assumes live: "\<exists>c \<in> set (channels s). live_slot c"
    and room: "\<not> (\<exists>ch. Some ch \<in> set (channels s) \<and> \<not> is_closed ch
       \<and> size_limit ch \<le> length (data ch))"
  shows "fst (coro_bus_try_broadcast s d) = 0
     \<and> channels (snd (coro_bus_try_broadcast s d)) = map (with_message d) (channels s)
     \<and> global_error (snd (coro_bus_try_broadcast s d)) = global_error s"
proof -
  from room obtain b where b: "broadcast_scan (channels s) False = Some b"
    using broadcast_scan_None [of "channels s" False] by (cases "broadcast_scan (channels s) False") auto
  from broadcast_scan_Some [OF b] live have "b" by simp
  with b broadcast_deliver_channels [of d "channels s"] show ?thesis
    by (cases "broadcast_deliver d (channels s)") (simp add: coro_bus_try_broadcast_def)
qed


text \<open>
  Claim C3. In a state that satisfies I1, \<open>try_broadcast\<close> is all-or-nothing. With no
  live channel it returns -1 with \<open>NO_CHANNEL\<close> and changes nothing but the error slot.
  With a live channel that is full it returns -1 with \<open>WOULD_BLOCK\<close> and changes
  nothing but the error slot. Otherwise it returns 0, leaves the error slot alone, and
  the vector afterwards is the old one with the message appended to the queue of every
  live channel: each such queue is one longer, and every other slot is as it was.
\<close>

theorem try_broadcast_all_or_nothing:
  assumes "bounded s"
  shows
    "(\<not> (\<exists>c \<in> set (channels s). live_slot c) \<longrightarrow>
        coro_bus_try_broadcast s v = (- 1, s\<lparr>global_error := CORO_BUS_ERR_NO_CHANNEL\<rparr>))
   \<and> ((\<exists>c \<in> set (channels s). live_slot c \<and> full_slot c) \<longrightarrow>
        coro_bus_try_broadcast s v = (- 1, s\<lparr>global_error := CORO_BUS_ERR_WOULD_BLOCK\<rparr>))
   \<and> ((\<exists>c \<in> set (channels s). live_slot c)
        \<and> \<not> (\<exists>c \<in> set (channels s). live_slot c \<and> full_slot c) \<longrightarrow>
        fst (coro_bus_try_broadcast s v) = 0
        \<and> global_error (snd (coro_bus_try_broadcast s v)) = global_error s
        \<and> channels (snd (coro_bus_try_broadcast s v)) = map (with_message v) (channels s)
        \<and> (\<forall>i < length (channels s). \<forall>ch. channels s ! i = Some ch \<and> \<not> is_closed ch \<longrightarrow>
              (\<exists>ch'. channels (snd (coro_bus_try_broadcast s v)) ! i = Some ch'
                 \<and> ch' = ch\<lparr>data := data ch @ [v]\<rparr>
                 \<and> length (data ch') = length (data ch) + 1))
        \<and> (\<forall>i < length (channels s). \<not> live_slot (channels s ! i) \<longrightarrow>
              channels (snd (coro_bus_try_broadcast s v)) ! i = channels s ! i))"
proof (intro conjI impI)
  assume "\<not> (\<exists>c \<in> set (channels s). live_slot c)"
  then show "coro_bus_try_broadcast s v = (- 1, s\<lparr>global_error := CORO_BUS_ERR_NO_CHANNEL\<rparr>)"
    by (simp add: try_broadcast_no_live coro_bus_errno_set_def)
next
  assume "\<exists>c \<in> set (channels s). live_slot c \<and> full_slot c"
  moreover from assms have "list_all within_limit (channels s)" by (simp only: bounded_def)
  ultimately have "\<exists>ch. Some ch \<in> set (channels s) \<and> \<not> is_closed ch
      \<and> size_limit ch \<le> length (data ch)"
    using over_limit_iff_full [of "channels s"] by blast
  then show "coro_bus_try_broadcast s v = (- 1, s\<lparr>global_error := CORO_BUS_ERR_WOULD_BLOCK\<rparr>)"
    by (simp add: try_broadcast_over_limit coro_bus_errno_set_def)
next
  assume a: "(\<exists>c \<in> set (channels s). live_slot c)
      \<and> \<not> (\<exists>c \<in> set (channels s). live_slot c \<and> full_slot c)"
  from assms have "list_all within_limit (channels s)" by (simp only: bounded_def)
  from over_limit_iff_full [OF this] a
  have room: "\<not> (\<exists>ch. Some ch \<in> set (channels s) \<and> \<not> is_closed ch
      \<and> size_limit ch \<le> length (data ch))"
    by blast
  from a have live: "\<exists>c \<in> set (channels s). live_slot c" by simp
  note d = try_broadcast_delivers [OF live room, of v]
  from d show "fst (coro_bus_try_broadcast s v) = 0" by simp
  from d show "global_error (snd (coro_bus_try_broadcast s v)) = global_error s" by simp
  from d show m: "channels (snd (coro_bus_try_broadcast s v)) = map (with_message v) (channels s)"
    by simp
  show "\<forall>i < length (channels s). \<forall>ch. channels s ! i = Some ch \<and> \<not> is_closed ch \<longrightarrow>
      (\<exists>ch'. channels (snd (coro_bus_try_broadcast s v)) ! i = Some ch'
         \<and> ch' = ch\<lparr>data := data ch @ [v]\<rparr>
         \<and> length (data ch') = length (data ch) + 1)"
    by (simp add: m)
  show "\<forall>i < length (channels s). \<not> live_slot (channels s ! i) \<longrightarrow>
      channels (snd (coro_bus_try_broadcast s v)) ! i = channels s ! i"
  proof (intro allI impI)
    fix i assume i: "i < length (channels s)" and dead: "\<not> live_slot (channels s ! i)"
    from dead have "with_message v (channels s ! i) = channels s ! i"
      by (cases "channels s ! i") simp_all
    with i show "channels (snd (coro_bus_try_broadcast s v)) ! i = channels s ! i"
      by (simp add: m)
  qed
qed

text \<open>
  The three cases on concrete buses: the empty bus; channels A and B of limit 1 with 9
  queued on A; and the same two channels, both empty.
\<close>

theorem try_broadcast_all_or_nothing_witness:
  "bounded coro_bus_new
   \<and> coro_bus_try_broadcast coro_bus_new 7 =
       (- 1, coro_bus_new\<lparr>global_error := CORO_BUS_ERR_NO_CHANNEL\<rparr>)
   \<and> bounded \<lparr>channels = [Some ((new_channel 1)\<lparr>data := [9]\<rparr>), Some (new_channel 1)],
              global_error = CORO_BUS_ERR_NONE, sched = []\<rparr>
   \<and> coro_bus_try_broadcast
        \<lparr>channels = [Some ((new_channel 1)\<lparr>data := [9]\<rparr>), Some (new_channel 1)],
         global_error = CORO_BUS_ERR_NONE, sched = []\<rparr> 7 =
       (- 1, \<lparr>channels = [Some ((new_channel 1)\<lparr>data := [9]\<rparr>), Some (new_channel 1)],
              global_error = CORO_BUS_ERR_WOULD_BLOCK, sched = []\<rparr>)
   \<and> bounded \<lparr>channels = [Some (new_channel 1), Some (new_channel 1)],
              global_error = CORO_BUS_ERR_NONE, sched = []\<rparr>
   \<and> channels (snd (coro_bus_try_broadcast
        \<lparr>channels = [Some (new_channel 1), Some (new_channel 1)],
         global_error = CORO_BUS_ERR_NONE, sched = []\<rparr> 7)) =
       [Some ((new_channel 1)\<lparr>data := [7]\<rparr>), Some ((new_channel 1)\<lparr>data := [7]\<rparr>)]"
proof -
  let ?A = "\<lparr>channels = [Some ((new_channel 1)\<lparr>data := [9]\<rparr>), Some (new_channel 1)],
              global_error = CORO_BUS_ERR_NONE, sched = []\<rparr>"
  let ?B = "\<lparr>channels = [Some (new_channel 1), Some (new_channel 1)],
              global_error = CORO_BUS_ERR_NONE, sched = []\<rparr>"
  have b0: "bounded coro_bus_new" by (simp add: bounded_def coro_bus_new_def)
  have bA: "bounded ?A" by (simp add: bounded_def new_channel_def)
  have bB: "bounded ?B" by (simp add: bounded_def new_channel_def)
  from try_broadcast_all_or_nothing [OF b0, of 7]
  have r0: "coro_bus_try_broadcast coro_bus_new 7 =
       (- 1, coro_bus_new\<lparr>global_error := CORO_BUS_ERR_NO_CHANNEL\<rparr>)"
    by (simp add: coro_bus_new_def)
  from try_broadcast_all_or_nothing [OF bA, of 7]
  have rA: "coro_bus_try_broadcast ?A 7 = (- 1, ?A\<lparr>global_error := CORO_BUS_ERR_WOULD_BLOCK\<rparr>)"
    by (simp add: new_channel_def)
  from try_broadcast_all_or_nothing [OF bB, of 7]
  have rB: "channels (snd (coro_bus_try_broadcast ?B 7)) = map (with_message 7) (channels ?B)"
    by (simp add: new_channel_def)
  from b0 bA bB r0 rA rB show ?thesis by (simp add: new_channel_def)
qed

section \<open>The queue bound is an invariant\<close>

lemma list_all_update:
  "list_all P xs \<Longrightarrow> P x \<Longrightarrow> list_all P (xs[i := x])"
  unfolding list_all_iff using set_update_subset_insert [of xs i x] by auto

lemma bounded_errno_set [simp]: "bounded (coro_bus_errno_set e s) = bounded s"
  by (simp add: bounded_def)

lemma bounded_coro_wakeup [simp]: "bounded (coro_wakeup c s) = bounded s"
  by (simp add: bounded_def)

lemma bounded_wakeup_first [simp]: "bounded (wakeup_first q s) = bounded s"
  by (simp add: bounded_def)

lemma bounded_fold_wakeup [simp]: "bounded (fold coro_wakeup q s) = bounded s"
  by (simp add: bounded_def)

lemma bounded_sched_update [simp]: "bounded (s\<lparr>sched := l\<rparr>) = bounded s"
  by (simp add: bounded_def)

lemma bounded_channel_at:
  "bounded s \<Longrightarrow> channel_at s channel = Some ch \<Longrightarrow> length (data ch) \<le> size_limit ch"
proof -
  assume b: "bounded s" and c: "channel_at s channel = Some ch"
  from channel_at_SomeD [OF c] have "Some ch \<in> set (channels s)"
    by (metis nth_mem)
  with b have "within_limit (Some ch)" unfolding bounded_def list_all_iff by blast
  then show ?thesis by simp
qed

lemma bounded_set_channel:
  "bounded s \<Longrightarrow> length (data ch) \<le> size_limit ch \<Longrightarrow> bounded (set_channel s channel ch)"
  by (simp add: bounded_def list_all_update)

lemma bounded_new: "bounded coro_bus_new"
  by (simp add: bounded_def coro_bus_new_def)

lemma bounded_channel_open: "bounded s \<Longrightarrow> bounded (snd (coro_bus_channel_open s limit))"
  by (simp add: coro_bus_channel_open_def bounded_def new_channel_def list_all_update Let_def
      split: option.splits)

lemma bounded_close_wake: "bounded s \<Longrightarrow> close_wake s channel = Some s' \<Longrightarrow> bounded s'"
proof -
  assume b: "bounded s" and c: "close_wake s channel = Some s'"
  from c obtain ch where ch: "channel_at_int s channel = Some ch"
    and s': "s' = fold coro_wakeup (recv_queue ch)
        (fold coro_wakeup (send_queue ch) (set_channel s channel (ch\<lparr>is_closed := True\<rparr>)))"
    by (auto simp: close_wake_def Let_def split: option.splits)
  from bounded_channel_at [OF b channel_at_int_imp_channel_at [OF ch]]
  have "length (data (ch\<lparr>is_closed := True\<rparr>)) \<le> size_limit (ch\<lparr>is_closed := True\<rparr>)" by simp
  from bounded_set_channel [OF b this] s' show ?thesis by simp
qed

lemma bounded_close_free: "bounded s \<Longrightarrow> bounded (close_free s channel)"
  by (simp add: close_free_def bounded_def list_all_update)

lemma bounded_try_send: "bounded s \<Longrightarrow> bounded (snd (coro_bus_try_send s channel d))"
proof (cases "channel_at s channel")
  case None
  assume "bounded s"
  with None show ?thesis by (simp add: coro_bus_try_send_def)
next
  case (Some ch)
  assume b: "bounded s"
  show ?thesis
  proof (cases "size_limit ch = length (data ch)")
    case True
    with Some b show ?thesis by (simp add: coro_bus_try_send_def)
  next
    case False
    with bounded_channel_at [OF b Some]
    have "length (data (ch\<lparr>data := data ch @ [d]\<rparr>)) \<le> size_limit (ch\<lparr>data := data ch @ [d]\<rparr>)"
      by simp
    from bounded_set_channel [OF b this] Some False show ?thesis
      by (simp add: coro_bus_try_send_def)
  qed
qed

lemma bounded_try_recv: "bounded s \<Longrightarrow> bounded (snd (snd (coro_bus_try_recv s channel)))"
proof (cases "channel_at s channel")
  case None
  assume "bounded s"
  with None show ?thesis by (simp add: coro_bus_try_recv_def)
next
  case (Some ch)
  assume b: "bounded s"
  from bounded_channel_at [OF b Some]
  have "length (data (ch\<lparr>data := tl (data ch)\<rparr>)) \<le> size_limit (ch\<lparr>data := tl (data ch)\<rparr>)"
    by simp
  from bounded_set_channel [OF b this] Some b show ?thesis
    by (simp add: coro_bus_try_recv_def)
qed

text \<open>The copy loop of \<open>try_send_v\<close> stops at the limit; the one of \<open>try_recv_v\<close> only pops.\<close>

lemma send_v_loop_limit:
  "size_limit (snd (send_v_loop send_c buf ch)) = size_limit ch"
proof (induction send_c buf ch rule: send_v_loop.induct)
  case (1 send_c buf ch)
  show ?case
  proof (cases "send_c < length buf \<and> length (data ch) \<noteq> size_limit ch")
    case True
    with "1.IH" show ?thesis by (subst send_v_loop.simps) simp
  next
    case False
    then show ?thesis by (subst send_v_loop.simps) auto
  qed
qed

lemma send_v_loop_bounded:
  "length (data ch) \<le> size_limit ch \<Longrightarrow>
     length (data (snd (send_v_loop send_c buf ch))) \<le> size_limit ch"
proof (induction send_c buf ch rule: send_v_loop.induct)
  case (1 send_c buf ch)
  show ?case
  proof (cases "send_c < length buf \<and> length (data ch) \<noteq> size_limit ch")
    case True
    with "1.prems" have "length (data (ch\<lparr>data := data ch @ [buf ! send_c]\<rparr>))
        \<le> size_limit (ch\<lparr>data := data ch @ [buf ! send_c]\<rparr>)" by simp
    from "1.IH" [OF True this] True show ?thesis by (subst send_v_loop.simps) simp
  next
    case False
    with "1.prems" show ?thesis by (subst send_v_loop.simps) auto
  qed
qed

lemma recv_v_loop_limit:
  "size_limit (snd (snd (recv_v_loop recv_c capacity out ch))) = size_limit ch"
proof (induction recv_c capacity out ch rule: recv_v_loop.induct)
  case (1 recv_c capacity out ch)
  show ?case
  proof (cases "recv_c < capacity \<and> length (data ch) \<noteq> 0")
    case True
    with "1.IH" show ?thesis by (subst recv_v_loop.simps) simp
  next
    case False
    then show ?thesis by (subst recv_v_loop.simps) auto
  qed
qed

lemma recv_v_loop_bounded:
  "length (data (snd (snd (recv_v_loop recv_c capacity out ch)))) \<le> length (data ch)"
proof (induction recv_c capacity out ch rule: recv_v_loop.induct)
  case (1 recv_c capacity out ch)
  show ?case
  proof (cases "recv_c < capacity \<and> length (data ch) \<noteq> 0")
    case True
    from "1.IH" [OF True] True show ?thesis by (subst recv_v_loop.simps) simp
  next
    case False
    then show ?thesis by (subst recv_v_loop.simps) auto
  qed
qed

lemma bounded_try_send_v: "bounded s \<Longrightarrow> bounded (snd (coro_bus_try_send_v s channel buf))"
proof (cases "channel_at s channel")
  case None
  assume "bounded s"
  with None show ?thesis by (simp add: coro_bus_try_send_v_def)
next
  case (Some ch)
  assume b: "bounded s"
  obtain k ch' where l: "send_v_loop 0 buf ch = (k, ch')" by (cases "send_v_loop 0 buf ch")
  from send_v_loop_bounded [OF bounded_channel_at [OF b Some], of 0 buf]
    send_v_loop_limit [of 0 buf ch] l
  have "length (data ch') \<le> size_limit ch'" by simp
  from bounded_set_channel [OF b this] Some b l show ?thesis
    by (simp add: coro_bus_try_send_v_def)
qed

lemma bounded_try_recv_v:
  "bounded s \<Longrightarrow> bounded (snd (snd (coro_bus_try_recv_v s channel capacity)))"
proof (cases "channel_at s channel")
  case None
  assume "bounded s"
  with None show ?thesis by (simp add: coro_bus_try_recv_v_def)
next
  case (Some ch)
  assume b: "bounded s"
  obtain k out ch' where l: "recv_v_loop 0 capacity [] ch = (k, out, ch')"
    by (cases "recv_v_loop 0 capacity [] ch") auto
  from recv_v_loop_bounded [of 0 capacity "[]" ch] recv_v_loop_limit [of 0 capacity "[]" ch]
    bounded_channel_at [OF b Some] l
  have "length (data ch') \<le> size_limit ch'" by simp
  from bounded_set_channel [OF b this] Some b l show ?thesis
    by (simp add: coro_bus_try_recv_v_def)
qed

lemma with_message_within_limit:
  assumes "list_all within_limit cs"
    and "\<not> (\<exists>ch. Some ch \<in> set cs \<and> \<not> is_closed ch \<and> size_limit ch \<le> length (data ch))"
  shows "list_all within_limit (map (with_message d) cs)"
  using assms
proof (induction cs)
  case Nil
  then show ?case by simp
next
  case (Cons c cs)
  then have rest: "list_all within_limit (map (with_message d) cs)" by auto
  have "within_limit (with_message d c)"
  proof (cases c)
    case None
    then show ?thesis by simp
  next
    case (Some ch)
    with Cons.prems have "length (data ch) \<le> size_limit ch"
      and "is_closed ch \<or> length (data ch) < size_limit ch"
      by auto
    with Some show ?thesis by auto
  qed
  with rest show ?case by simp
qed

lemma bounded_try_broadcast: "bounded s \<Longrightarrow> bounded (snd (coro_bus_try_broadcast s d))"
proof (cases "broadcast_scan (channels s) False")
  case None
  assume "bounded s"
  with None show ?thesis by (simp add: coro_bus_try_broadcast_def)
next
  case (Some b)
  assume bs: "bounded s"
  from Some have room: "\<not> (\<exists>ch. Some ch \<in> set (channels s) \<and> \<not> is_closed ch
      \<and> size_limit ch \<le> length (data ch))"
    using broadcast_scan_None [of "channels s" False] by simp
  from bs have "list_all within_limit (channels s)" by (simp only: bounded_def)
  from with_message_within_limit [OF this room, of d] broadcast_deliver_channels [of d "channels s"]
  have "list_all within_limit (fst (broadcast_deliver d (channels s)))" by simp
  with Some bs show ?thesis
    by (cases "broadcast_deliver d (channels s)") (simp add: coro_bus_try_broadcast_def bounded_def)
qed


lemma bounded_link_send: "bounded s \<Longrightarrow> bounded (link_send s channel me)"
proof (cases "channel_at s channel")
  case None
  assume "bounded s"
  with None show ?thesis by (simp add: link_send_def)
next
  case (Some ch)
  assume b: "bounded s"
  from bounded_channel_at [OF b Some]
  have "length (data (ch\<lparr>send_queue := send_queue ch @ [me]\<rparr>))
      \<le> size_limit (ch\<lparr>send_queue := send_queue ch @ [me]\<rparr>)" by simp
  from bounded_set_channel [OF b this] Some show ?thesis by (simp add: link_send_def)
qed

lemma bounded_link_recv: "bounded s \<Longrightarrow> bounded (link_recv s channel me)"
proof (cases "channel_at s channel")
  case None
  assume "bounded s"
  with None show ?thesis by (simp add: link_recv_def)
next
  case (Some ch)
  assume b: "bounded s"
  from bounded_channel_at [OF b Some]
  have "length (data (ch\<lparr>recv_queue := recv_queue ch @ [me]\<rparr>))
      \<le> size_limit (ch\<lparr>recv_queue := recv_queue ch @ [me]\<rparr>)" by simp
  from bounded_set_channel [OF b this] Some show ?thesis by (simp add: link_recv_def)
qed

lemma bounded_unlink_send: "bounded s \<Longrightarrow> bounded (unlink_send s channel me)"
proof (cases "channel_at s channel")
  case None
  assume "bounded s"
  with None show ?thesis by (simp add: unlink_send_def)
next
  case (Some ch)
  assume b: "bounded s"
  from bounded_channel_at [OF b Some]
  have "length (data (ch\<lparr>send_queue := remove1 me (send_queue ch)\<rparr>))
      \<le> size_limit (ch\<lparr>send_queue := remove1 me (send_queue ch)\<rparr>)" by simp
  from bounded_set_channel [OF b this] Some show ?thesis by (simp add: unlink_send_def)
qed

lemma bounded_unlink_recv: "bounded s \<Longrightarrow> bounded (unlink_recv s channel me)"
proof (cases "channel_at s channel")
  case None
  assume "bounded s"
  with None show ?thesis by (simp add: unlink_recv_def)
next
  case (Some ch)
  assume b: "bounded s"
  from bounded_channel_at [OF b Some]
  have "length (data (ch\<lparr>recv_queue := remove1 me (recv_queue ch)\<rparr>))
      \<le> size_limit (ch\<lparr>recv_queue := remove1 me (recv_queue ch)\<rparr>)" by simp
  from bounded_set_channel [OF b this] Some show ?thesis by (simp add: unlink_recv_def)
qed

lemma bounded_wake_next_sender [simp]: "bounded (wake_next_sender s channel) = bounded s"
  by (simp add: wake_next_sender_def split: option.splits)

lemma bounded_wake_next_receiver [simp]: "bounded (wake_next_receiver s channel) = bounded s"
  by (simp add: wake_next_receiver_def split: option.splits)

lemma bounded_wake_senders [simp]: "bounded (wake_senders cs s) = bounded s"
  by (induction cs s rule: wake_senders.induct) simp_all

lemma bounded_coro_suspend:
  "bounded s \<Longrightarrow> (\<And>x. bounded x \<Longrightarrow> bounded (others x)) \<Longrightarrow> bounded (coro_suspend others s)"
  by (simp add: coro_suspend_def)

lemma bounded_coro_yield:
  "bounded s \<Longrightarrow> (\<And>x. bounded x \<Longrightarrow> bounded (others x)) \<Longrightarrow> bounded (coro_yield others s)"
  by (simp add: coro_yield_def)

text \<open>One pass of each blocking loop keeps the bound.\<close>

lemma bounded_send_attempt:
  "bounded s \<Longrightarrow> bounded (attempt_state (send_attempt me s channel d ch))"
  using bounded_try_send [of s channel d]
  by (cases "coro_bus_try_send s channel d") (simp add: send_attempt_def bounded_link_send)

lemma bounded_recv_attempt:
  "bounded s \<Longrightarrow> bounded (attempt_state (recv_attempt me s channel ch))"
  using bounded_try_recv [of s channel]
  by (cases "coro_bus_try_recv s channel") (simp add: recv_attempt_def bounded_link_recv)

lemma bounded_send_v_attempt:
  "bounded s \<Longrightarrow> bounded (attempt_state (send_v_attempt me s channel buf ch))"
  using bounded_try_send_v [of s channel buf]
  by (cases "coro_bus_try_send_v s channel buf") (simp add: send_v_attempt_def bounded_link_send)

lemma bounded_recv_v_attempt:
  "bounded s \<Longrightarrow> bounded (attempt_state (recv_v_attempt me s channel capacity ch))"
  using bounded_try_recv_v [of s channel capacity]
  by (cases "coro_bus_try_recv_v s channel capacity")
     (simp add: recv_v_attempt_def bounded_link_recv)

lemma bounded_broadcast_attempt:
  "bounded s \<Longrightarrow> bounded (attempt_state (broadcast_attempt me s d))"
  using bounded_try_broadcast [of s d]
  by (cases "coro_bus_try_broadcast s d")
     (simp add: broadcast_attempt_def bounded_link_send split: option.splits)

lemma bounded_exec: "bounded s \<Longrightarrow> bounded (exec a s)"
proof (cases a)
  case (Close_wake channel)
  assume "bounded s"
  then show ?thesis using Close_wake bounded_close_wake [of s channel]
    by (cases "close_wake s channel") simp_all
next
  case (Send_attempt me channel d)
  assume "bounded s"
  then show ?thesis using Send_attempt
    by (cases "channel_at s channel") (simp_all add: bounded_send_attempt)
next
  case (Recv_attempt me channel)
  assume "bounded s"
  then show ?thesis using Recv_attempt
    by (cases "channel_at s channel") (simp_all add: bounded_recv_attempt)
next
  case (Send_v_attempt me channel buf)
  assume "bounded s"
  then show ?thesis using Send_v_attempt
    by (cases "channel_at s channel") (simp_all add: bounded_send_v_attempt)
next
  case (Recv_v_attempt me channel capacity)
  assume "bounded s"
  then show ?thesis using Recv_v_attempt
    by (cases "channel_at s channel") (simp_all add: bounded_recv_v_attempt)
qed (simp_all add: bounded_channel_open bounded_close_free bounded_try_send bounded_try_recv
      bounded_try_broadcast bounded_try_send_v bounded_try_recv_v bounded_broadcast_attempt
      bounded_unlink_send bounded_unlink_recv)

lemma reachable_bounded: "reachable s \<Longrightarrow> bounded s"
  by (induction rule: reachable.induct) (simp_all add: bounded_new bounded_exec)

text \<open>
  Claim C4. In every state reachable from the new bus by the actions of the bus
  operations, every channel's queue is at most as long as the channel's limit.
\<close>

theorem queue_within_limit:
  assumes "reachable s"
  shows "\<forall>i < length (channels s). \<forall>ch. channels s ! i = Some ch \<longrightarrow>
           length (data ch) \<le> size_limit ch"
proof (intro allI impI)
  fix i ch assume i: "i < length (channels s)" and ch: "channels s ! i = Some ch"
  from i ch have "Some ch \<in> set (channels s)" by (metis nth_mem)
  with reachable_bounded [OF assms] have "within_limit (Some ch)"
    unfolding bounded_def list_all_iff by blast
  then show "length (data ch) \<le> size_limit ch" by simp
qed

text \<open>
  A reachable state: a channel of limit 2 is opened, a batch of three is offered and a
  single message after it.
\<close>

theorem queue_within_limit_witness:
  "reachable (exec (Try_send 0 4) (exec (Try_send_v 0 [1, 2, 3]) (exec (Channel_open 2) coro_bus_new)))
   \<and> channels (exec (Try_send 0 4) (exec (Try_send_v 0 [1, 2, 3]) (exec (Channel_open 2) coro_bus_new))) ! 0
       = Some \<lparr>size_limit = 2, send_queue = [], recv_queue = [], data = [1, 2], is_closed = False\<rparr>
   \<and> length (data \<lparr>size_limit = 2, send_queue = [], recv_queue = [], data = [1, 2 :: 32 word],
                    is_closed = False\<rparr>)
       \<le> size_limit \<lparr>size_limit = 2, send_queue = [], recv_queue = [], data = [1, 2 :: 32 word],
                     is_closed = False\<rparr>"
proof -
  let ?s = "exec (Try_send 0 4) (exec (Try_send_v 0 [1, 2, 3]) (exec (Channel_open 2) coro_bus_new))"
  let ?ch = "\<lparr>size_limit = 2, send_queue = [], recv_queue = [], data = [1, 2 :: 32 word],
              is_closed = False\<rparr>"
  have r: "reachable ?s" by (intro reachable.step reachable.initial)
  have c: "channels ?s = [Some ?ch]"
    by (simp add: coro_bus_channel_open_def coro_bus_new_def new_channel_def Let_def
        coro_bus_try_send_v_def coro_bus_try_send_def channel_at_def set_channel_def
        wakeup_first_def send_v_loop.simps coro_bus_errno_set_def)
  from queue_within_limit [OF r] c have "length (data ?ch) \<le> size_limit ?ch" by simp
  with r c show ?thesis by simp
qed

section \<open>What a blocking operation reports when it fails\<close>

lemma send_attempt_failure:
  "send_attempt me s channel d ch = Finished (- 1) s' \<Longrightarrow>
     global_error s' = CORO_BUS_ERR_NO_CHANNEL"
  by (cases "coro_bus_try_send s channel d")
     (auto simp: send_attempt_def coro_bus_errno_def split: if_splits)

lemma recv_attempt_failure:
  "recv_attempt me s channel ch = Finished (- 1, out) s' \<Longrightarrow>
     global_error s' = CORO_BUS_ERR_NO_CHANNEL"
  by (cases "coro_bus_try_recv s channel")
     (auto simp: recv_attempt_def coro_bus_errno_def split: if_splits)

lemma send_v_attempt_failure:
  "send_v_attempt me s channel buf ch = Finished (- 1) s' \<Longrightarrow>
     global_error s' = CORO_BUS_ERR_NO_CHANNEL"
  by (cases "coro_bus_try_send_v s channel buf")
     (auto simp: send_v_attempt_def coro_bus_errno_def split: if_splits)

lemma recv_v_attempt_failure:
  "recv_v_attempt me s channel capacity ch = Finished (- 1, out) s' \<Longrightarrow>
     global_error s' = CORO_BUS_ERR_NO_CHANNEL"
  by (cases "coro_bus_try_recv_v s channel capacity")
     (auto simp: recv_v_attempt_def coro_bus_errno_def split: if_splits)

lemma send_loop_failure:
  "send_loop n others me s channel d = Returned (- 1) s' \<Longrightarrow>
     global_error s' = CORO_BUS_ERR_NO_CHANNEL"
proof (induction n arbitrary: s)
  case 0
  then show ?case by simp
next
  case (Suc n)
  from Suc.prems obtain ch where ch: "channel_at s channel = Some ch"
    by (cases "channel_at s channel") auto
  show ?case
  proof (cases "send_attempt me s channel d ch")
    case (Finished r x)
    with Suc.prems ch have "send_attempt me s channel d ch = Finished (- 1) s'" by simp
    then show ?thesis by (rule send_attempt_failure)
  next
    case (Parked c x)
    with Suc.prems ch show ?thesis by (auto intro: Suc.IH)
  next
    case (Again x)
    with Suc.prems ch show ?thesis by (auto intro: Suc.IH)
  qed
qed

lemma recv_loop_failure:
  "recv_loop n others me s channel = Returned (- 1, out) s' \<Longrightarrow>
     global_error s' = CORO_BUS_ERR_NO_CHANNEL"
proof (induction n arbitrary: s)
  case 0
  then show ?case by simp
next
  case (Suc n)
  from Suc.prems obtain ch where ch: "channel_at s channel = Some ch"
    by (cases "channel_at s channel") auto
  show ?case
  proof (cases "recv_attempt me s channel ch")
    case (Finished r x)
    with Suc.prems ch have "recv_attempt me s channel ch = Finished (- 1, out) s'" by simp
    then show ?thesis by (rule recv_attempt_failure)
  next
    case (Parked c x)
    with Suc.prems ch show ?thesis by (auto intro: Suc.IH)
  next
    case (Again x)
    with Suc.prems ch show ?thesis by (auto intro: Suc.IH)
  qed
qed

lemma send_v_loop_blocking_failure:
  "send_v_loop_blocking n others me s channel buf = Returned (- 1) s' \<Longrightarrow>
     global_error s' = CORO_BUS_ERR_NO_CHANNEL"
proof (induction n arbitrary: s)
  case 0
  then show ?case by simp
next
  case (Suc n)
  from Suc.prems obtain ch where ch: "channel_at s channel = Some ch"
    by (cases "channel_at s channel") auto
  show ?case
  proof (cases "send_v_attempt me s channel buf ch")
    case (Finished r x)
    with Suc.prems ch have "send_v_attempt me s channel buf ch = Finished (- 1) s'" by simp
    then show ?thesis by (rule send_v_attempt_failure)
  next
    case (Parked c x)
    with Suc.prems ch show ?thesis by (auto intro: Suc.IH)
  next
    case (Again x)
    with Suc.prems ch show ?thesis by (auto intro: Suc.IH)
  qed
qed

lemma recv_v_loop_blocking_failure:
  "recv_v_loop_blocking n others me s channel capacity = Returned (- 1, out) s' \<Longrightarrow>
     global_error s' = CORO_BUS_ERR_NO_CHANNEL"
proof (induction n arbitrary: s)
  case 0
  then show ?case by simp
next
  case (Suc n)
  from Suc.prems obtain ch where ch: "channel_at s channel = Some ch"
    by (cases "channel_at s channel") auto
  show ?case
  proof (cases "recv_v_attempt me s channel capacity ch")
    case (Finished r x)
    with Suc.prems ch have "recv_v_attempt me s channel capacity ch = Finished (- 1, out) s'"
      by simp
    then show ?thesis by (rule recv_v_attempt_failure)
  next
    case (Parked c x)
    with Suc.prems ch show ?thesis by (auto intro: Suc.IH)
  next
    case (Again x)
    with Suc.prems ch show ?thesis by (auto intro: Suc.IH)
  qed
qed

lemma send_failure:
  "coro_bus_send fuel others me s channel d = Returned (- 1) s' \<Longrightarrow>
     global_error s' = CORO_BUS_ERR_NO_CHANNEL"
  by (cases "channel_at_int s channel")
     (auto simp: coro_bus_send_def dest: send_loop_failure)

lemma recv_failure:
  "coro_bus_recv fuel others me s channel = Returned (- 1, out) s' \<Longrightarrow>
     global_error s' = CORO_BUS_ERR_NO_CHANNEL"
  by (cases "channel_at s channel")
     (auto simp: coro_bus_recv_def dest: recv_loop_failure)

lemma send_v_failure:
  "coro_bus_send_v fuel others me s channel buf = Returned (- 1) s' \<Longrightarrow>
     global_error s' = CORO_BUS_ERR_NO_CHANNEL"
  by (cases "channel_at s channel")
     (auto simp: coro_bus_send_v_def dest: send_v_loop_blocking_failure)

lemma recv_v_failure:
  "coro_bus_recv_v fuel others me s channel capacity = Returned (- 1, out) s' \<Longrightarrow>
     global_error s' = CORO_BUS_ERR_NO_CHANNEL"
  by (cases "channel_at s channel")
     (auto simp: coro_bus_recv_v_def dest: recv_v_loop_blocking_failure)

text \<open>
  \<open>coro_bus_broadcast\<close> has one \<open>return -1\<close> that sets no error: the one taken when the
  search for a full channel finds none after \<open>try_broadcast\<close> has said \<open>WOULD_BLOCK\<close>.
  The search tests \<open>size_limit == data.size()\<close>, \<open>try_broadcast\<close> tests
  \<open>data.size() >= size_limit\<close>; under I1 both hold of the same channels, so that
  return is never taken.
\<close>

lemma find_blocking_None:
  "find_blocking cs i = None \<longleftrightarrow>
     \<not> (\<exists>ch. Some ch \<in> set cs \<and> \<not> is_closed ch \<and> size_limit ch = length (data ch))"
  by (induction cs i rule: find_blocking.induct) auto

lemma try_broadcast_would_block:
  assumes "coro_bus_try_broadcast s d = (r, s1)"
    and "global_error s1 = CORO_BUS_ERR_WOULD_BLOCK" and "r = - 1"
  shows "channels s1 = channels s
     \<and> (\<exists>ch. Some ch \<in> set (channels s) \<and> \<not> is_closed ch \<and> size_limit ch \<le> length (data ch))"
proof (cases "broadcast_scan (channels s) False")
  case None
  with assms(1) have "channels s1 = channels s" by (auto simp: coro_bus_try_broadcast_def)
  with None show ?thesis by (simp add: broadcast_scan_None)
next
  case (Some b)
  with assms show ?thesis
    by (cases "broadcast_deliver d (channels s)")
       (auto simp: coro_bus_try_broadcast_def split: if_splits)
qed

lemma broadcast_attempt_failure:
  assumes "bounded s" and "broadcast_attempt me s d = Finished (- 1) s'"
  shows "global_error s' = CORO_BUS_ERR_NO_CHANNEL"
proof -
  obtain r s1 where t: "coro_bus_try_broadcast s d = (r, s1)"
    by (cases "coro_bus_try_broadcast s d")
  show ?thesis
  proof (cases "r = - 1 \<and> global_error s1 = CORO_BUS_ERR_WOULD_BLOCK")
    case False
    with assms(2) t show ?thesis
      by (auto simp: broadcast_attempt_def coro_bus_errno_def split: if_splits)
  next
    case True
    from try_broadcast_would_block [OF t] True
    obtain ch where c: "channels s1 = channels s" and ch: "Some ch \<in> set (channels s)"
      "\<not> is_closed ch" "size_limit ch \<le> length (data ch)" by blast
    from assms(1) ch(1) have "within_limit (Some ch)"
      unfolding bounded_def list_all_iff by blast
    with ch(3) have "size_limit ch = length (data ch)" by simp
    with ch(1,2) c have "find_blocking (channels s1) 0 \<noteq> None"
      by (auto simp: find_blocking_None)
    with assms(2) t True show ?thesis
      by (auto simp: broadcast_attempt_def coro_bus_errno_def split: if_splits)
  qed
qed

lemma broadcast_failure:
  assumes "\<And>n x. bounded x \<Longrightarrow> bounded (others n x)"
  shows "bounded s \<Longrightarrow> coro_bus_broadcast fuel others me s d = Returned (- 1) s' \<Longrightarrow>
     global_error s' = CORO_BUS_ERR_NO_CHANNEL"
proof (induction fuel arbitrary: s)
  case 0
  then show ?case by simp
next
  case (Suc n)
  show ?case
  proof (cases "broadcast_attempt me s d")
    case (Finished r x)
    with Suc.prems(2) have "broadcast_attempt me s d = Finished (- 1) s'" by simp
    with Suc.prems(1) show ?thesis by (rule broadcast_attempt_failure)
  next
    case (Parked c x)
    from bounded_broadcast_attempt [OF Suc.prems(1), of me d] Parked have "bounded x" by simp
    then have "bounded (coro_suspend (others n) x)"
      by (rule bounded_coro_suspend) (rule assms)
    then have b: "bounded (unlink_send (coro_suspend (others n) x) c me)"
      by (rule bounded_unlink_send)
    from Suc.prems(2) Parked
    have "coro_bus_broadcast n others me (unlink_send (coro_suspend (others n) x) c me) d
        = Returned (- 1) s'"
      by (simp add: Let_def split: option.splits)
    with b show ?thesis by (rule Suc.IH)
  next
    case (Again x)
    from bounded_broadcast_attempt [OF Suc.prems(1), of me d] Again have b: "bounded x" by simp
    from Suc.prems(2) Again have "coro_bus_broadcast n others me x d = Returned (- 1) s'"
      by simp
    with b show ?thesis by (rule Suc.IH)
  qed
qed

text \<open>
  Claim C7. Whenever a blocking operation (send, recv, send_v, recv_v, broadcast) returns
  -1, the error slot holds \<open>NO_CHANNEL\<close> at that return, and so never
  \<open>WOULD_BLOCK\<close>. The operation starts in a state that satisfies I1, and whatever the
  other coroutines do while it is suspended keeps I1.
\<close>

theorem blocking_failure_is_no_channel:
  assumes "bounded s" and "\<forall>n x. bounded x \<longrightarrow> bounded (others n x)"
  shows
    "(\<forall>s'. coro_bus_send fuel others me s channel d = Returned (- 1) s' \<longrightarrow>
        coro_bus_errno s' = CORO_BUS_ERR_NO_CHANNEL \<and> coro_bus_errno s' \<noteq> CORO_BUS_ERR_WOULD_BLOCK)
   \<and> (\<forall>out s'. coro_bus_recv fuel others me s channel = Returned (- 1, out) s' \<longrightarrow>
        coro_bus_errno s' = CORO_BUS_ERR_NO_CHANNEL \<and> coro_bus_errno s' \<noteq> CORO_BUS_ERR_WOULD_BLOCK)
   \<and> (\<forall>s'. coro_bus_send_v fuel others me s channel buf = Returned (- 1) s' \<longrightarrow>
        coro_bus_errno s' = CORO_BUS_ERR_NO_CHANNEL \<and> coro_bus_errno s' \<noteq> CORO_BUS_ERR_WOULD_BLOCK)
   \<and> (\<forall>outs s'. coro_bus_recv_v fuel others me s channel capacity = Returned (- 1, outs) s' \<longrightarrow>
        coro_bus_errno s' = CORO_BUS_ERR_NO_CHANNEL \<and> coro_bus_errno s' \<noteq> CORO_BUS_ERR_WOULD_BLOCK)
   \<and> (\<forall>s'. coro_bus_broadcast fuel others me s d = Returned (- 1) s' \<longrightarrow>
        coro_bus_errno s' = CORO_BUS_ERR_NO_CHANNEL \<and> coro_bus_errno s' \<noteq> CORO_BUS_ERR_WOULD_BLOCK)"
proof -
  from assms(2) have keep: "\<And>n x. bounded x \<Longrightarrow> bounded (others n x)" by blast
  have 1: "\<forall>s'. coro_bus_send fuel others me s channel d = Returned (- 1) s' \<longrightarrow>
      coro_bus_errno s' = CORO_BUS_ERR_NO_CHANNEL \<and> coro_bus_errno s' \<noteq> CORO_BUS_ERR_WOULD_BLOCK"
    by (auto simp: coro_bus_errno_def dest: send_failure)
  have 2: "\<forall>out s'. coro_bus_recv fuel others me s channel = Returned (- 1, out) s' \<longrightarrow>
      coro_bus_errno s' = CORO_BUS_ERR_NO_CHANNEL \<and> coro_bus_errno s' \<noteq> CORO_BUS_ERR_WOULD_BLOCK"
    by (auto simp: coro_bus_errno_def dest: recv_failure)
  have 3: "\<forall>s'. coro_bus_send_v fuel others me s channel buf = Returned (- 1) s' \<longrightarrow>
      coro_bus_errno s' = CORO_BUS_ERR_NO_CHANNEL \<and> coro_bus_errno s' \<noteq> CORO_BUS_ERR_WOULD_BLOCK"
    by (auto simp: coro_bus_errno_def dest: send_v_failure)
  have 4: "\<forall>outs s'. coro_bus_recv_v fuel others me s channel capacity = Returned (- 1, outs) s' \<longrightarrow>
      coro_bus_errno s' = CORO_BUS_ERR_NO_CHANNEL \<and> coro_bus_errno s' \<noteq> CORO_BUS_ERR_WOULD_BLOCK"
    by (auto simp: coro_bus_errno_def dest: recv_v_failure)
  have 5: "\<forall>s'. coro_bus_broadcast fuel others me s d = Returned (- 1) s' \<longrightarrow>
      coro_bus_errno s' = CORO_BUS_ERR_NO_CHANNEL \<and> coro_bus_errno s' \<noteq> CORO_BUS_ERR_WOULD_BLOCK"
    using broadcast_failure [of others s fuel me d, OF keep assms(1)]
    by (auto simp: coro_bus_errno_def)
  from 1 2 3 4 5 show ?thesis by (intro conjI)
qed

text \<open>
  Channel 0 has limit 1 and holds one message. Coroutine 2 calls send and is suspended;
  while it sleeps the channel is closed (the first half of \<open>coro_bus_channel_close\<close>).
  Its send returns -1 with \<open>NO_CHANNEL\<close>.
\<close>

theorem blocking_failure_is_no_channel_witness:
  "bounded \<lparr>channels = [Some \<lparr>size_limit = 1, send_queue = [], recv_queue = [], data = [1],
                              is_closed = False\<rparr>],
            global_error = CORO_BUS_ERR_NONE, sched = []\<rparr>
   \<and> coro_bus_send 3 (\<lambda>n. exec (Close_wake 0)) 2
        \<lparr>channels = [Some \<lparr>size_limit = 1, send_queue = [], recv_queue = [], data = [1],
                             is_closed = False\<rparr>],
         global_error = CORO_BUS_ERR_NONE, sched = []\<rparr> 0 2 =
       Returned (- 1)
        \<lparr>channels = [Some \<lparr>size_limit = 1, send_queue = [], recv_queue = [], data = [1],
                             is_closed = True\<rparr>],
         global_error = CORO_BUS_ERR_NO_CHANNEL, sched = [Suspend, Wakeup 2]\<rparr>
   \<and> coro_bus_errno
        \<lparr>channels = [Some \<lparr>size_limit = 1, send_queue = [], recv_queue = [], data = [1],
                             is_closed = True\<rparr>],
         global_error = CORO_BUS_ERR_NO_CHANNEL, sched = [Suspend, Wakeup 2]\<rparr>
       = CORO_BUS_ERR_NO_CHANNEL"
proof -
  let ?s = "\<lparr>channels = [Some \<lparr>size_limit = 1, send_queue = [], recv_queue = [], data = [1 :: 32 word],
                              is_closed = False\<rparr>],
            global_error = CORO_BUS_ERR_NONE, sched = []\<rparr>"
  let ?s' = "\<lparr>channels = [Some \<lparr>size_limit = 1, send_queue = [], recv_queue = [], data = [1 :: 32 word],
                             is_closed = True\<rparr>],
         global_error = CORO_BUS_ERR_NO_CHANNEL, sched = [Suspend, Wakeup 2]\<rparr>"
  have b: "bounded ?s" by (simp add: bounded_def)
  have keep: "\<forall>n x. bounded x \<longrightarrow> bounded (exec (Close_wake 0) x)"
    by (intro allI impI) (rule bounded_exec)
  have run: "coro_bus_send (Suc (Suc (Suc 0))) (\<lambda>n. exec (Close_wake 0)) 2 ?s 0 2 = Returned (- 1) ?s'"
    by (simp add: coro_bus_send_def channel_at_int_def channel_at_def int_cast_def
        send_attempt_def coro_bus_try_send_def coro_bus_errno_set_def coro_bus_errno_def
        link_send_def set_channel_def coro_suspend_def close_wake_def coro_wakeup_def
        unlink_send_def)
  from blocking_failure_is_no_channel [OF b keep, of "Suc (Suc (Suc 0))" 2 0 2] run
  have "coro_bus_errno ?s' = CORO_BUS_ERR_NO_CHANNEL" by blast
  with b run show ?thesis by (simp only: numeral_3_eq_3)
qed

section \<open>Opening a channel\<close>

lemma find_free_Some:
  "find_free cs i = Some j \<Longrightarrow>
     i \<le> j \<and> j - i < length cs \<and> cs ! (j - i) = None \<and> (\<forall>m < j - i. cs ! m \<noteq> None)"
proof (induction cs i rule: find_free.induct)
  case (1 i)
  then show ?case by simp
next
  case (2 cs i)
  then show ?case by simp
next
  case (3 ch cs i)
  then have ih: "Suc i \<le> j \<and> j - Suc i < length cs \<and> cs ! (j - Suc i) = None
      \<and> (\<forall>m < j - Suc i. cs ! m \<noteq> None)" by simp
  then have eq: "j - i = Suc (j - Suc i)" by arith
  have "\<forall>m < j - i. (Some ch # cs) ! m \<noteq> None"
  proof (intro allI impI)
    fix m assume "m < j - i"
    with eq ih show "(Some ch # cs) ! m \<noteq> None" by (cases m) auto
  qed
  with ih eq show ?case by simp
qed

lemma find_free_None: "find_free cs i = None \<Longrightarrow> \<forall>m < length cs. cs ! m \<noteq> None"
proof (induction cs i rule: find_free.induct)
  case (1 i)
  then show ?case by simp
next
  case (2 cs i)
  then show ?case by simp
next
  case (3 ch cs i)
  then have ih: "\<forall>m < length cs. cs ! m \<noteq> None" by simp
  show ?case
  proof (intro allI impI)
    fix m assume "m < length (Some ch # cs)"
    with ih show "(Some ch # cs) ! m \<noteq> None" by (cases m) auto
  qed
qed

text \<open>What \<open>coro_bus_channel_open\<close> does, by whether the vector has an empty slot.\<close>

lemma channel_open_reuse:
  assumes "i < length (channels s)" and "channels s ! i = None"
    and "\<forall>j < i. channels s ! j \<noteq> None"
  shows "coro_bus_channel_open s limit =
           (int_cast i, s\<lparr>channels := (channels s)[i := Some (new_channel limit)]\<rparr>)"
proof (cases "find_free (channels s) 0")
  case None
  from find_free_None [OF None] assms(1,2) show ?thesis by blast
next
  case (Some j)
  from find_free_Some [OF Some]
  have j: "j < length (channels s)" "channels s ! j = None" "\<forall>m < j. channels s ! m \<noteq> None"
    by simp_all
  from j(2) assms(3) have "\<not> j < i" by blast
  moreover from assms(2) j(3) have "\<not> i < j" by blast
  ultimately have "j = i" by arith
  with Some show ?thesis by (simp add: coro_bus_channel_open_def)
qed

lemma channel_open_append:
  assumes "\<forall>j < length (channels s). channels s ! j \<noteq> None"
  shows "coro_bus_channel_open s limit =
           (int_cast (length (channels s)), s\<lparr>channels := channels s @ [Some (new_channel limit)]\<rparr>)"
proof (cases "find_free (channels s) 0")
  case None
  then show ?thesis by (simp add: coro_bus_channel_open_def)
next
  case (Some j)
  from find_free_Some [OF Some] assms show ?thesis by auto
qed

text \<open>After a close that got past its id check, the slot is empty.\<close>

lemma channel_close_frees:
  assumes "channel_at_int s0 c = Some ch" and "s = coro_bus_channel_close others s0 c"
    and "nat c < length (channels s)"
  shows "channels s ! nat c = None"
proof -
  from assms(1) obtain s3 where "close_wake s0 c = Some s3"
    by (simp add: close_wake_def)
  with assms(2) have "s = close_free (coro_yield others s3) c"
    by (simp add: coro_bus_channel_close_def)
  with assms(3) show ?thesis by (simp add: close_free_def)
qed


text \<open>
  Claim C8. On a bus of fewer than \<open>2^31\<close> slots (ids are \<open>int\<close>),
  \<open>channel_open\<close> never fails: it returns a slot index \<open>i\<close> and touches neither the
  error slot nor any other channel. If the vector has an empty slot, \<open>i\<close> is the lowest
  one and the new channel is stored there; otherwise \<open>i\<close> is the old length and the
  new channel is appended. The channel at \<open>i\<close> has the given limit, an empty queue,
  empty waiter lists and \<open>is_closed = false\<close>. In particular, if the bus is what a
  \<open>channel_close\<close> of slot \<open>c\<close> left and no slot below \<open>c\<close> is empty, the open returns \<open>c\<close>.
\<close>

theorem channel_open_lowest_slot:
  assumes "length (channels s) < 2 ^ 31"
  shows
    "\<exists>i. fst (coro_bus_channel_open s limit) = int i
       \<and> (if \<exists>j < length (channels s). channels s ! j = None
          then i < length (channels s) \<and> channels s ! i = None
               \<and> (\<forall>j < i. channels s ! j \<noteq> None)
               \<and> channels (snd (coro_bus_channel_open s limit))
                   = (channels s)[i := Some (new_channel limit)]
          else i = length (channels s)
               \<and> channels (snd (coro_bus_channel_open s limit))
                   = channels s @ [Some (new_channel limit)])
       \<and> channel_at (snd (coro_bus_channel_open s limit)) (int i) =
           Some \<lparr>size_limit = limit, send_queue = [], recv_queue = [], data = [],
                 is_closed = False\<rparr>
       \<and> global_error (snd (coro_bus_channel_open s limit)) = global_error s
       \<and> (\<forall>others s0 c ch.
             channel_at_int s0 c = Some ch \<and> s = coro_bus_channel_close others s0 c
             \<and> nat c < length (channels s) \<and> (\<forall>j < nat c. channels s ! j \<noteq> None)
             \<longrightarrow> fst (coro_bus_channel_open s limit) = c)"
proof -
  have reuse: "\<forall>others s0 c ch.
      channel_at_int s0 c = Some ch \<and> s = coro_bus_channel_close others s0 c
      \<and> nat c < length (channels s) \<and> (\<forall>j < nat c. channels s ! j \<noteq> None)
      \<longrightarrow> fst (coro_bus_channel_open s limit) = c"
  proof (intro allI impI, elim conjE)
    fix others s0 c ch
    assume at: "channel_at_int s0 c = Some ch" and s: "s = coro_bus_channel_close others s0 c"
      and len: "nat c < length (channels s)" and low: "\<forall>j < nat c. channels s ! j \<noteq> None"
    from channel_close_frees [OF at s len] have "channels s ! nat c = None" .
    from channel_open_reuse [OF len this low]
    have "fst (coro_bus_channel_open s limit) = int_cast (nat c)" by simp
    also from len assms have "nat c < 2 ^ 31" by simp
    then have "int_cast (nat c) = int (nat c)" by (rule int_cast_small)
    also from channel_at_int_SomeD [OF at] have "int (nat c) = c" by simp
    finally show "fst (coro_bus_channel_open s limit) = c" .
  qed
  show ?thesis
  proof (cases "find_free (channels s) 0")
    case None
    from find_free_None [OF None] have full: "\<forall>j < length (channels s). channels s ! j \<noteq> None" .
    from channel_open_append [OF full, of limit] int_cast_small [OF assms]
    have o: "coro_bus_channel_open s limit =
        (int (length (channels s)), s\<lparr>channels := channels s @ [Some (new_channel limit)]\<rparr>)"
      by simp
    have "fst (coro_bus_channel_open s limit) = int (length (channels s))
       \<and> (if \<exists>j < length (channels s). channels s ! j = None
          then length (channels s) < length (channels s)
               \<and> channels s ! length (channels s) = None
               \<and> (\<forall>j < length (channels s). channels s ! j \<noteq> None)
               \<and> channels (snd (coro_bus_channel_open s limit))
                   = (channels s)[length (channels s) := Some (new_channel limit)]
          else length (channels s) = length (channels s)
               \<and> channels (snd (coro_bus_channel_open s limit))
                   = channels s @ [Some (new_channel limit)])
       \<and> channel_at (snd (coro_bus_channel_open s limit)) (int (length (channels s))) =
           Some \<lparr>size_limit = limit, send_queue = [], recv_queue = [], data = [],
                 is_closed = False\<rparr>
       \<and> global_error (snd (coro_bus_channel_open s limit)) = global_error s"
      using full by (simp add: o channel_at_def new_channel_def)
    with reuse show ?thesis by blast
  next
    case (Some i)
    from find_free_Some [OF Some]
    have i: "i < length (channels s)" "channels s ! i = None" "\<forall>m < i. channels s ! m \<noteq> None"
      by simp_all
    from i(1) assms have "i < 2 ^ 31" by simp
    from channel_open_reuse [OF i, of limit] int_cast_small [OF this]
    have o: "coro_bus_channel_open s limit =
        (int i, s\<lparr>channels := (channels s)[i := Some (new_channel limit)]\<rparr>)"
      by simp
    from i(1,2) have ex: "\<exists>j < length (channels s). channels s ! j = None" by blast
    have "fst (coro_bus_channel_open s limit) = int i
       \<and> (if \<exists>j < length (channels s). channels s ! j = None
          then i < length (channels s) \<and> channels s ! i = None
               \<and> (\<forall>j < i. channels s ! j \<noteq> None)
               \<and> channels (snd (coro_bus_channel_open s limit))
                   = (channels s)[i := Some (new_channel limit)]
          else i = length (channels s)
               \<and> channels (snd (coro_bus_channel_open s limit))
                   = channels s @ [Some (new_channel limit)])
       \<and> channel_at (snd (coro_bus_channel_open s limit)) (int i) =
           Some \<lparr>size_limit = limit, send_queue = [], recv_queue = [], data = [],
                 is_closed = False\<rparr>
       \<and> global_error (snd (coro_bus_channel_open s limit)) = global_error s"
      using i ex by (simp add: o channel_at_def new_channel_def)
    with reuse show ?thesis by blast
  qed
qed

text \<open>
  Channels A and B are opened at ids 0 and 1, A is closed (nothing else runs during the
  yield), and the next open returns 0.
\<close>

theorem channel_open_lowest_slot_witness:
  "snd (coro_bus_channel_open (snd (coro_bus_channel_open coro_bus_new 1)) 1) =
     \<lparr>channels = [Some (new_channel 1), Some (new_channel 1)],
      global_error = CORO_BUS_ERR_NONE, sched = []\<rparr>
   \<and> coro_bus_channel_close (\<lambda>x. x)
        \<lparr>channels = [Some (new_channel 1), Some (new_channel 1)],
         global_error = CORO_BUS_ERR_NONE, sched = []\<rparr> 0 =
       \<lparr>channels = [None, Some (new_channel 1)], global_error = CORO_BUS_ERR_NONE,
        sched = [Yield]\<rparr>
   \<and> length (channels \<lparr>channels = [None, Some (new_channel 1)],
        global_error = CORO_BUS_ERR_NONE, sched = [Yield]\<rparr>) < 2 ^ 31
   \<and> fst (coro_bus_channel_open
        \<lparr>channels = [None, Some (new_channel 1)], global_error = CORO_BUS_ERR_NONE,
         sched = [Yield]\<rparr> 3) = 0"
proof -
  let ?AB = "\<lparr>channels = [Some (new_channel 1), Some (new_channel 1)],
      global_error = CORO_BUS_ERR_NONE, sched = []\<rparr>"
  let ?B = "\<lparr>channels = [None, Some (new_channel 1)], global_error = CORO_BUS_ERR_NONE,
        sched = [Yield]\<rparr>"
  have opened: "snd (coro_bus_channel_open (snd (coro_bus_channel_open coro_bus_new 1)) 1) = ?AB"
    by (simp add: coro_bus_channel_open_def coro_bus_new_def Let_def)
  have at: "channel_at_int ?AB 0 = Some (new_channel 1)"
    by (simp add: channel_at_int_def int_cast_def)
  have closed: "coro_bus_channel_close (\<lambda>x. x) ?AB 0 = ?B"
    by (simp add: coro_bus_channel_close_def close_wake_def channel_at_int_def int_cast_def
        set_channel_def new_channel_def coro_yield_def close_free_def)
  have len: "length (channels ?B) < 2 ^ 31" by simp
  from channel_open_lowest_slot [OF len, of 3]
  have "\<forall>others s0 c ch.
      channel_at_int s0 c = Some ch \<and> ?B = coro_bus_channel_close others s0 c
      \<and> nat c < length (channels ?B) \<and> (\<forall>j < nat c. channels ?B ! j \<noteq> None)
      \<longrightarrow> fst (coro_bus_channel_open ?B 3) = c"
    by blast
  then have "channel_at_int ?AB 0 = Some (new_channel 1)
      \<and> ?B = coro_bus_channel_close (\<lambda>x. x) ?AB 0
      \<and> nat 0 < length (channels ?B) \<and> (\<forall>j < nat 0. channels ?B ! j \<noteq> None)
      \<longrightarrow> fst (coro_bus_channel_open ?B 3) = 0"
    by blast
  with at closed have "fst (coro_bus_channel_open ?B 3) = 0" by simp
  with opened closed len show ?thesis by (intro conjI)
qed

section \<open>A channel of limit 0\<close>

text \<open>
  Claim C10. \<open>channel_open\<close> accepts the limit 0 and returns a slot index like for any
  other limit (first conjunct: the slot holds a channel of limit 0 and the state is a
  reachable one). In every reachable state, a channel of limit 0 has an empty queue,
  \<open>try_send\<close> on it returns -1 with \<open>WOULD_BLOCK\<close> and \<open>try_recv\<close> returns -1 with
  \<open>WOULD_BLOCK\<close> without writing its out-parameter, and neither changes anything but
  the error slot: no message ever passes through such a channel.
\<close>

theorem zero_limit_channel_blocks:
  assumes "reachable s" and "length (channels s) < 2 ^ 31"
  shows
    "(\<exists>i. fst (coro_bus_channel_open s 0) = int i
        \<and> channel_at (snd (coro_bus_channel_open s 0)) (int i) = Some (new_channel 0)
        \<and> size_limit (new_channel 0) = 0
        \<and> reachable (snd (coro_bus_channel_open s 0)))
     \<and> (\<forall>t channel ch d.
          reachable t \<and> channel_at t channel = Some ch \<and> size_limit ch = 0 \<longrightarrow>
            data ch = []
            \<and> coro_bus_try_send t channel d =
                (- 1, t\<lparr>global_error := CORO_BUS_ERR_WOULD_BLOCK\<rparr>)
            \<and> coro_bus_try_recv t channel =
                (- 1, None, t\<lparr>global_error := CORO_BUS_ERR_WOULD_BLOCK\<rparr>))"
proof (intro conjI allI impI)
  have r: "reachable (snd (coro_bus_channel_open s 0))"
    using reachable.step [OF assms(1), of "Channel_open 0"] by simp
  show "\<exists>i. fst (coro_bus_channel_open s 0) = int i
      \<and> channel_at (snd (coro_bus_channel_open s 0)) (int i) = Some (new_channel 0)
      \<and> size_limit (new_channel 0) = 0
      \<and> reachable (snd (coro_bus_channel_open s 0))"
  proof (cases "find_free (channels s) 0")
    case None
    from find_free_None [OF None] have "\<forall>j < length (channels s). channels s ! j \<noteq> None" .
    from channel_open_append [OF this, of 0] int_cast_small [OF assms(2)]
    have "coro_bus_channel_open s 0 =
        (int (length (channels s)), s\<lparr>channels := channels s @ [Some (new_channel 0)]\<rparr>)"
      by simp
    with r have "fst (coro_bus_channel_open s 0) = int (length (channels s))
      \<and> channel_at (snd (coro_bus_channel_open s 0)) (int (length (channels s)))
          = Some (new_channel 0)
      \<and> size_limit (new_channel 0) = 0
      \<and> reachable (snd (coro_bus_channel_open s 0))"
      by (simp add: channel_at_def new_channel_def)
    then show ?thesis by blast
  next
    case (Some i)
    from find_free_Some [OF Some]
    have i: "i < length (channels s)" "channels s ! i = None" "\<forall>m < i. channels s ! m \<noteq> None"
      by simp_all
    from i(1) assms(2) have "i < 2 ^ 31" by simp
    from channel_open_reuse [OF i, of 0] int_cast_small [OF this]
    have "coro_bus_channel_open s 0 =
        (int i, s\<lparr>channels := (channels s)[i := Some (new_channel 0)]\<rparr>)"
      by simp
    with r i(1) have "fst (coro_bus_channel_open s 0) = int i
      \<and> channel_at (snd (coro_bus_channel_open s 0)) (int i) = Some (new_channel 0)
      \<and> size_limit (new_channel 0) = 0
      \<and> reachable (snd (coro_bus_channel_open s 0))"
      by (simp add: channel_at_def new_channel_def)
    then show ?thesis by blast
  qed
next
  fix t channel ch d
  assume a: "reachable t \<and> channel_at t channel = Some ch \<and> size_limit ch = 0"
  then have at: "channel_at t channel = Some ch" and z: "size_limit ch = 0" by simp_all
  from a have "bounded t" by (simp add: reachable_bounded)
  from bounded_channel_at [OF this at] z show empty: "data ch = []" by simp
  from try_send_full [OF at, of d] z empty
  show "coro_bus_try_send t channel d = (- 1, t\<lparr>global_error := CORO_BUS_ERR_WOULD_BLOCK\<rparr>)"
    by (simp add: coro_bus_errno_set_def)
  from try_recv_empty [OF at empty]
  show "coro_bus_try_recv t channel = (- 1, None, t\<lparr>global_error := CORO_BUS_ERR_WOULD_BLOCK\<rparr>)"
    by (simp add: coro_bus_errno_set_def)
qed

text \<open>On the new bus: the channel of limit 0 gets id 0, and a send of 5 to it fails.\<close>

theorem zero_limit_channel_blocks_witness:
  "reachable coro_bus_new \<and> length (channels coro_bus_new) < 2 ^ 31
   \<and> coro_bus_channel_open coro_bus_new 0 =
       (0, \<lparr>channels = [Some (new_channel 0)], global_error = CORO_BUS_ERR_NONE, sched = []\<rparr>)
   \<and> reachable \<lparr>channels = [Some (new_channel 0)], global_error = CORO_BUS_ERR_NONE, sched = []\<rparr>
   \<and> coro_bus_try_send
        \<lparr>channels = [Some (new_channel 0)], global_error = CORO_BUS_ERR_NONE, sched = []\<rparr> 0 5 =
       (- 1, \<lparr>channels = [Some (new_channel 0)], global_error = CORO_BUS_ERR_WOULD_BLOCK,
              sched = []\<rparr>)
   \<and> coro_bus_try_recv
        \<lparr>channels = [Some (new_channel 0)], global_error = CORO_BUS_ERR_NONE, sched = []\<rparr> 0 =
       (- 1, None, \<lparr>channels = [Some (new_channel 0)], global_error = CORO_BUS_ERR_WOULD_BLOCK,
              sched = []\<rparr>)"
proof -
  let ?t = "\<lparr>channels = [Some (new_channel 0)], global_error = CORO_BUS_ERR_NONE, sched = []\<rparr>"
  have r0: "reachable coro_bus_new" by (rule reachable.initial)
  have l0: "length (channels coro_bus_new) < 2 ^ 31" by (simp add: coro_bus_new_def)
  have o: "coro_bus_channel_open coro_bus_new 0 = (0, ?t)"
    by (simp add: coro_bus_channel_open_def coro_bus_new_def Let_def int_cast_def)
  note th = zero_limit_channel_blocks [OF r0 l0]
  from th o have rt: "reachable ?t" by simp
  have at: "channel_at ?t 0 = Some (new_channel 0)" by (simp add: channel_at_def)
  have z: "size_limit (new_channel 0) = 0" by (simp add: new_channel_def)
  from th have "reachable ?t \<and> channel_at ?t 0 = Some (new_channel 0)
      \<and> size_limit (new_channel 0) = 0 \<longrightarrow>
        data (new_channel 0) = []
        \<and> coro_bus_try_send ?t 0 5 = (- 1, ?t\<lparr>global_error := CORO_BUS_ERR_WOULD_BLOCK\<rparr>)
        \<and> coro_bus_try_recv ?t 0 = (- 1, None, ?t\<lparr>global_error := CORO_BUS_ERR_WOULD_BLOCK\<rparr>)"
    by blast
  with rt at z have "coro_bus_try_send ?t 0 5 = (- 1, ?t\<lparr>global_error := CORO_BUS_ERR_WOULD_BLOCK\<rparr>)"
    and "coro_bus_try_recv ?t 0 = (- 1, None, ?t\<lparr>global_error := CORO_BUS_ERR_WOULD_BLOCK\<rparr>)"
    by simp_all
  with r0 l0 o rt show ?thesis by simp
qed

section \<open>Closing a channel\<close>

lemma channel_close_invalid:
  "channel_at_int s channel = None \<Longrightarrow> coro_bus_channel_close others s channel = s"
  by (simp add: coro_bus_channel_close_def close_wake_def)

text \<open>
  For a slot that holds a channel, closed already or not: the flag is set, every linked
  waiter gets one \<open>coro_wakeup\<close> (senders first, each list in order), \<open>coro_yield\<close> is
  called once, and the slot is emptied in the state the yield returns.
\<close>

lemma channel_close_protocol:
  assumes "channel_at_int s channel = Some ch"
  shows "coro_bus_channel_close others s channel =
     close_free
       (others (s\<lparr>channels := (channels s)[nat channel := Some (ch\<lparr>is_closed := True\<rparr>)],
                  sched := sched s @ map Wakeup (send_queue ch) @ map Wakeup (recv_queue ch)
                             @ [Yield]\<rparr>))
       channel"
proof -
  let ?s1 = "set_channel s channel (ch\<lparr>is_closed := True\<rparr>)"
  let ?s3 = "fold coro_wakeup (recv_queue ch) (fold coro_wakeup (send_queue ch) ?s1)"
  have "?s3 = s\<lparr>channels := (channels s)[nat channel := Some (ch\<lparr>is_closed := True\<rparr>)],
      sched := sched s @ map Wakeup (send_queue ch) @ map Wakeup (recv_queue ch)\<rparr>"
    by (rule state.equality) (simp_all add: sched_fold_wakeup)
  with assms show ?thesis
    by (simp add: coro_bus_channel_close_def close_wake_def coro_yield_def)
qed

text \<open>
  Claim C5. A close of an already-closed channel should do nothing. The first conjunct
  is the state in which a closer of channel 0 (limit 1, one message queued, coroutine 5
  waiting to send) calls \<open>coro_yield\<close>. If a second coroutine calls
  \<open>coro_bus_channel_close\<close> on channel 0 then, the call wakes coroutine 5 again, yields,
  and deletes the channel, which the first closer deletes once more when it resumes.
\<close>

theorem close_of_closed_channel_runs_again:
  "close_wake
      \<lparr>channels = [Some \<lparr>size_limit = 1, send_queue = [5], recv_queue = [], data = [1],
                           is_closed = False\<rparr>],
       global_error = CORO_BUS_ERR_NONE, sched = []\<rparr> 0 =
     Some \<lparr>channels = [Some \<lparr>size_limit = 1, send_queue = [5], recv_queue = [], data = [1],
                                is_closed = True\<rparr>],
           global_error = CORO_BUS_ERR_NONE, sched = [Wakeup 5]\<rparr>
   \<and> coro_bus_channel_close (\<lambda>x. x)
       \<lparr>channels = [Some \<lparr>size_limit = 1, send_queue = [5], recv_queue = [], data = [1],
                            is_closed = True\<rparr>],
        global_error = CORO_BUS_ERR_NONE, sched = [Wakeup 5, Yield]\<rparr> 0 =
     \<lparr>channels = [None], global_error = CORO_BUS_ERR_NONE,
      sched = [Wakeup 5, Yield, Wakeup 5, Yield]\<rparr>"
  by (simp add: coro_bus_channel_close_def close_wake_def channel_at_int_def int_cast_def
      set_channel_def coro_wakeup_def coro_yield_def close_free_def)

section \<open>Vectorized send\<close>

text \<open>
  From counter \<open>send_c\<close>, the copy loop appends the next \<open>k\<close> values of the buffer,
  where \<open>k\<close> is the smaller of what is left of the buffer and the room in the queue.
\<close>

lemma send_v_loop_eq:
  assumes "length (data ch) \<le> size_limit ch" and "send_c \<le> length buf"
  shows "send_v_loop send_c buf ch =
     (send_c + min (length buf - send_c) (size_limit ch - length (data ch)),
      ch\<lparr>data := data ch
             @ take (min (length buf - send_c) (size_limit ch - length (data ch)))
                 (drop send_c buf)\<rparr>)"
  using assms
proof (induction send_c buf ch rule: send_v_loop.induct)
  case (1 send_c buf ch)
  show ?case
  proof (cases "send_c < length buf \<and> length (data ch) \<noteq> size_limit ch")
    case False
    with "1.prems" have "min (length buf - send_c) (size_limit ch - length (data ch)) = 0"
      by auto
    moreover from False have "send_v_loop send_c buf ch = (send_c, ch)"
      by (subst send_v_loop.simps) auto
    ultimately show ?thesis by simp
  next
    case True
    let ?ch = "ch\<lparr>data := data ch @ [buf ! send_c]\<rparr>"
    let ?k = "min (length buf - (send_c + 1)) (size_limit ?ch - length (data ?ch))"
    from True "1.prems" have p: "length (data ?ch) \<le> size_limit ?ch" "send_c + 1 \<le> length buf"
      by simp_all
    from "1.IH" [OF True p]
    have ih: "send_v_loop (send_c + 1) buf ?ch =
        (send_c + 1 + ?k, ?ch\<lparr>data := data ?ch @ take ?k (drop (send_c + 1) buf)\<rparr>)" .
    from True "1.prems"
    have k: "min (length buf - send_c) (size_limit ch - length (data ch)) = Suc ?k"
      by auto
    from True have d: "drop send_c buf = buf ! send_c # drop (send_c + 1) buf"
      by (simp add: Cons_nth_drop_Suc)
    have "send_v_loop send_c buf ch = send_v_loop (send_c + 1) buf ?ch"
      using True by (subst send_v_loop.simps) simp
    with ih k d show ?thesis by simp
  qed
qed

text \<open>
  On a slot that holds a channel with room, whether closed or not, a batch of \<open>n\<close>
  values with \<open>1 \<le> n < 2^31\<close> enqueues its first \<open>k = min(n, limit - len)\<close>
  values in order, changes nothing else of the channel, and returns \<open>k \<ge> 1\<close>; a
  channel at its limit gives \<open>WOULD_BLOCK\<close>.
\<close>

lemma try_send_v_room:
  assumes at: "channel_at s channel = Some ch"
    and room: "length (data ch) < size_limit ch"
    and n: "buf \<noteq> []" "length buf < 2 ^ 31"
  shows "coro_bus_try_send_v s channel buf =
       (int (min (length buf) (size_limit ch - length (data ch))),
        wakeup_first (recv_queue ch)
          (set_channel s channel
             (ch\<lparr>data := data ch
                    @ take (min (length buf) (size_limit ch - length (data ch))) buf\<rparr>)))
     \<and> 1 \<le> min (length buf) (size_limit ch - length (data ch))"
proof -
  let ?k = "min (length buf) (size_limit ch - length (data ch))"
  from room have "length (data ch) \<le> size_limit ch" by simp
  from send_v_loop_eq [OF this, of 0 buf]
  have l: "send_v_loop 0 buf ch = (?k, ch\<lparr>data := data ch @ take ?k buf\<rparr>)" by simp
  from n(2) have "?k < 2 ^ 31" by simp
  then have c: "int_cast ?k = int ?k" by (rule int_cast_small)
  from n(1) room have "1 \<le> ?k" by (cases buf) simp_all
  moreover from at room l c have "coro_bus_try_send_v s channel buf =
       (int ?k, wakeup_first (recv_queue ch)
          (set_channel s channel (ch\<lparr>data := data ch @ take ?k buf\<rparr>)))"
    by (simp add: coro_bus_try_send_v_def)
  ultimately show ?thesis by simp
qed

lemma try_send_v_full:
  "channel_at s channel = Some ch \<Longrightarrow> size_limit ch = length (data ch) \<Longrightarrow>
     coro_bus_try_send_v s channel buf = (- 1, coro_bus_errno_set CORO_BUS_ERR_WOULD_BLOCK s)"
  by (simp add: coro_bus_try_send_v_def)

lemma try_send_v_no_channel:
  "channel_at s channel = None \<Longrightarrow>
     coro_bus_try_send_v s channel buf = (- 1, coro_bus_errno_set CORO_BUS_ERR_NO_CHANNEL s)"
  by (simp add: coro_bus_try_send_v_def)

text \<open>
  Claim C6. On a closed channel \<open>try_send_v\<close> should fail with \<open>NO_CHANNEL\<close>. On the
  closed channel of limit 3 below, with one message queued, \<open>coro_bus_try_send_v\<close>
  with the buffer 1, 2, 3 returns 2 and enqueues 1 and 2.
\<close>

theorem try_send_v_on_closed_channel:
  "coro_bus_try_send_v
       \<lparr>channels = [Some \<lparr>size_limit = 3, send_queue = [], recv_queue = [], data = [9],
                            is_closed = True\<rparr>],
        global_error = CORO_BUS_ERR_NONE, sched = []\<rparr> 0 [1, 2, 3] =
     (2, \<lparr>channels = [Some \<lparr>size_limit = 3, send_queue = [], recv_queue = [],
                               data = [9, 1, 2], is_closed = True\<rparr>],
           global_error = CORO_BUS_ERR_NONE, sched = []\<rparr>)"
  by (simp add: coro_bus_try_send_v_def channel_at_def send_v_loop.simps set_channel_def
      wakeup_first_def int_cast_def)

section \<open>The error slot\<close>

lemma send_v_loop_count:
  "send_c \<le> length buf \<Longrightarrow> fst (send_v_loop send_c buf ch) \<le> length buf"
proof (induction send_c buf ch rule: send_v_loop.induct)
  case (1 send_c buf ch)
  show ?case
  proof (cases "send_c < length buf \<and> length (data ch) \<noteq> size_limit ch")
    case True
    then have "send_c + 1 \<le> length buf" by simp
    from "1.IH" [OF True this] True show ?thesis by (subst send_v_loop.simps) simp
  next
    case False
    with "1.prems" show ?thesis by (subst send_v_loop.simps) auto
  qed
qed

lemma recv_v_loop_count:
  "recv_c \<le> capacity \<Longrightarrow> fst (recv_v_loop recv_c capacity out ch) \<le> capacity"
proof (induction recv_c capacity out ch rule: recv_v_loop.induct)
  case (1 recv_c capacity out ch)
  show ?case
  proof (cases "recv_c < capacity \<and> length (data ch) \<noteq> 0")
    case True
    then have "recv_c + 1 \<le> capacity" by simp
    from "1.IH" [OF True this] True show ?thesis by (subst recv_v_loop.simps) simp
  next
    case False
    with "1.prems" show ?thesis by (subst recv_v_loop.simps) auto
  qed
qed

text \<open>
  What each try variant writes to the slot, on open and on closed channels alike (the
  closed flag is not read by \<open>try_send\<close>, \<open>try_recv\<close>, \<open>try_send_v\<close> and
  \<open>try_recv_v\<close>).
\<close>

lemma try_send_errno:
  "(fst (coro_bus_try_send s channel d) = - 1 \<longrightarrow>
      coro_bus_errno (snd (coro_bus_try_send s channel d)) =
        (if channel_at s channel = None then CORO_BUS_ERR_NO_CHANNEL
         else CORO_BUS_ERR_WOULD_BLOCK))
   \<and> (fst (coro_bus_try_send s channel d) \<noteq> - 1 \<longrightarrow>
      coro_bus_errno (snd (coro_bus_try_send s channel d)) = coro_bus_errno s)"
  by (simp add: coro_bus_try_send_def coro_bus_errno_def split: option.splits)

lemma try_recv_errno:
  "(fst (coro_bus_try_recv s channel) = - 1 \<longrightarrow>
      coro_bus_errno (snd (snd (coro_bus_try_recv s channel))) =
        (if channel_at s channel = None then CORO_BUS_ERR_NO_CHANNEL
         else CORO_BUS_ERR_WOULD_BLOCK))
   \<and> (fst (coro_bus_try_recv s channel) \<noteq> - 1 \<longrightarrow>
      coro_bus_errno (snd (snd (coro_bus_try_recv s channel))) = coro_bus_errno s)"
  by (simp add: coro_bus_try_recv_def coro_bus_errno_def split: option.splits)

lemma try_send_v_errno:
  assumes "length buf < 2 ^ 31"
  shows
  "(fst (coro_bus_try_send_v s channel buf) = - 1 \<longrightarrow>
      coro_bus_errno (snd (coro_bus_try_send_v s channel buf)) =
        (if channel_at s channel = None then CORO_BUS_ERR_NO_CHANNEL
         else CORO_BUS_ERR_WOULD_BLOCK))
   \<and> (fst (coro_bus_try_send_v s channel buf) \<noteq> - 1 \<longrightarrow>
      coro_bus_errno (snd (coro_bus_try_send_v s channel buf)) = coro_bus_errno s)"
proof (cases "channel_at s channel")
  case None
  then show ?thesis by (simp add: coro_bus_try_send_v_def coro_bus_errno_def)
next
  case (Some ch)
  obtain k ch' where l: "send_v_loop 0 buf ch = (k, ch')" by (cases "send_v_loop 0 buf ch")
  from send_v_loop_count [of 0 buf ch] l have "k \<le> length buf" by simp
  with assms have "k < 2 ^ 31" by simp
  then have "int_cast k = int k" by (rule int_cast_small)
  then have "int_cast k \<noteq> - 1" by simp
  with Some l show ?thesis by (simp add: coro_bus_try_send_v_def coro_bus_errno_def)
qed

lemma try_recv_v_errno:
  assumes "capacity < 2 ^ 31"
  shows
  "(fst (coro_bus_try_recv_v s channel capacity) = - 1 \<longrightarrow>
      coro_bus_errno (snd (snd (coro_bus_try_recv_v s channel capacity))) =
        (if channel_at s channel = None then CORO_BUS_ERR_NO_CHANNEL
         else CORO_BUS_ERR_WOULD_BLOCK))
   \<and> (fst (coro_bus_try_recv_v s channel capacity) \<noteq> - 1 \<longrightarrow>
      coro_bus_errno (snd (snd (coro_bus_try_recv_v s channel capacity))) = coro_bus_errno s)"
proof (cases "channel_at s channel")
  case None
  then show ?thesis by (simp add: coro_bus_try_recv_v_def coro_bus_errno_def)
next
  case (Some ch)
  obtain k out ch' where l: "recv_v_loop 0 capacity [] ch = (k, out, ch')"
    by (cases "recv_v_loop 0 capacity [] ch") auto
  from recv_v_loop_count [of 0 capacity "[]" ch] l have "k \<le> capacity" by simp
  with assms have "k < 2 ^ 31" by simp
  then have "int_cast k = int k" by (rule int_cast_small)
  then have "int_cast k \<noteq> - 1" by simp
  with Some l show ?thesis by (simp add: coro_bus_try_recv_v_def coro_bus_errno_def)
qed

lemma try_broadcast_errno:
  "(fst (coro_bus_try_broadcast s d) = - 1 \<longrightarrow>
      coro_bus_errno (snd (coro_bus_try_broadcast s d)) =
        (if \<exists>c \<in> set (channels s). live_slot c then CORO_BUS_ERR_WOULD_BLOCK
         else CORO_BUS_ERR_NO_CHANNEL))
   \<and> (fst (coro_bus_try_broadcast s d) \<noteq> - 1 \<longrightarrow>
      coro_bus_errno (snd (coro_bus_try_broadcast s d)) = coro_bus_errno s)"
proof (cases "\<exists>c \<in> set (channels s). live_slot c")
  case False
  from try_broadcast_no_live [OF False] False show ?thesis
    by (simp add: coro_bus_errno_def)
next
  case live: True
  show ?thesis
  proof (cases "\<exists>ch. Some ch \<in> set (channels s) \<and> \<not> is_closed ch
      \<and> size_limit ch \<le> length (data ch)")
    case True
    from try_broadcast_over_limit [OF True] live show ?thesis
      by (simp add: coro_bus_errno_def)
  next
    case False
    from try_broadcast_delivers [OF live False, of d] show ?thesis
      by (simp add: coro_bus_errno_def)
  qed
qed

lemma channel_open_errno:
  "coro_bus_errno (snd (coro_bus_channel_open s limit)) = coro_bus_errno s"
  by (simp add: coro_bus_channel_open_def coro_bus_errno_def Let_def split: option.splits)


text \<open>
  Claim C9 says that a successful operation resets the error slot. On a new channel of
  limit 1, a \<open>try_recv\<close> fails with \<open>WOULD_BLOCK\<close>; the \<open>try_send\<close> after it
  succeeds, and the slot still reads \<open>WOULD_BLOCK\<close>.
\<close>

theorem error_slot_survives_success:
  "fst (coro_bus_try_recv (snd (coro_bus_channel_open coro_bus_new 1)) 0) = - 1
   \<and> coro_bus_errno (snd (snd (coro_bus_try_recv (snd (coro_bus_channel_open coro_bus_new 1)) 0)))
       = CORO_BUS_ERR_WOULD_BLOCK
   \<and> fst (coro_bus_try_send
        (snd (snd (coro_bus_try_recv (snd (coro_bus_channel_open coro_bus_new 1)) 0))) 0 5) = 0
   \<and> coro_bus_errno (snd (coro_bus_try_send
        (snd (snd (coro_bus_try_recv (snd (coro_bus_channel_open coro_bus_new 1)) 0))) 0 5))
       = CORO_BUS_ERR_WOULD_BLOCK
   \<and> coro_bus_errno (snd (coro_bus_try_send
        (snd (snd (coro_bus_try_recv (snd (coro_bus_channel_open coro_bus_new 1)) 0))) 0 5))
       \<noteq> CORO_BUS_ERR_NONE"
  by (simp add: coro_bus_channel_open_def coro_bus_new_def new_channel_def Let_def
      coro_bus_try_recv_def coro_bus_try_send_def channel_at_def coro_bus_errno_set_def
      coro_bus_errno_def set_channel_def wakeup_first_def)

text \<open>
  What a successful blocking call does to the error slot. Every try variant either
  returns -1 with one of the two error codes in the slot, or leaves the slot alone.
\<close>

lemma try_send_slot:
  "coro_bus_try_send s channel d = (r, s1) \<Longrightarrow>
     (r = - 1 \<and> (global_error s1 = CORO_BUS_ERR_NO_CHANNEL
                  \<or> global_error s1 = CORO_BUS_ERR_WOULD_BLOCK))
     \<or> global_error s1 = global_error s"
  by (auto simp: coro_bus_try_send_def split: option.splits if_splits)

lemma try_recv_slot:
  "coro_bus_try_recv s channel = (r, out, s1) \<Longrightarrow>
     (r = - 1 \<and> (global_error s1 = CORO_BUS_ERR_NO_CHANNEL
                  \<or> global_error s1 = CORO_BUS_ERR_WOULD_BLOCK))
     \<or> global_error s1 = global_error s"
  by (auto simp: coro_bus_try_recv_def split: option.splits if_splits)

lemma try_send_v_slot:
  "coro_bus_try_send_v s channel buf = (r, s1) \<Longrightarrow>
     (r = - 1 \<and> (global_error s1 = CORO_BUS_ERR_NO_CHANNEL
                  \<or> global_error s1 = CORO_BUS_ERR_WOULD_BLOCK))
     \<or> global_error s1 = global_error s"
  by (auto simp: coro_bus_try_send_v_def split: option.splits if_splits prod.splits)

lemma try_recv_v_slot:
  "coro_bus_try_recv_v s channel capacity = (r, out, s1) \<Longrightarrow>
     (r = - 1 \<and> (global_error s1 = CORO_BUS_ERR_NO_CHANNEL
                  \<or> global_error s1 = CORO_BUS_ERR_WOULD_BLOCK))
     \<or> global_error s1 = global_error s"
  by (auto simp: coro_bus_try_recv_v_def split: option.splits if_splits prod.splits)

lemma try_broadcast_slot:
  "coro_bus_try_broadcast s d = (r, s1) \<Longrightarrow>
     (r = - 1 \<and> (global_error s1 = CORO_BUS_ERR_NO_CHANNEL
                  \<or> global_error s1 = CORO_BUS_ERR_WOULD_BLOCK))
     \<or> global_error s1 = global_error s"
  by (auto simp: coro_bus_try_broadcast_def split: option.splits if_splits prod.splits)

lemma global_error_link_send [simp]: "global_error (link_send s channel me) = global_error s"
  by (simp add: link_send_def split: option.splits)

lemma global_error_link_recv [simp]: "global_error (link_recv s channel me) = global_error s"
  by (simp add: link_recv_def split: option.splits)

lemma global_error_unlink_send [simp]: "global_error (unlink_send s channel me) = global_error s"
  by (simp add: unlink_send_def split: option.splits)

lemma global_error_unlink_recv [simp]: "global_error (unlink_recv s channel me) = global_error s"
  by (simp add: unlink_recv_def split: option.splits)

lemma global_error_wake_next_sender [simp]:
  "global_error (wake_next_sender s channel) = global_error s"
  by (simp add: wake_next_sender_def split: option.splits)

lemma global_error_wake_next_receiver [simp]:
  "global_error (wake_next_receiver s channel) = global_error s"
  by (simp add: wake_next_receiver_def split: option.splits)

lemma global_error_wake_senders [simp]: "global_error (wake_senders cs s) = global_error s"
  by (induction cs s rule: wake_senders.induct) simp_all

text \<open>
  One pass of a blocking loop: a return other than -1 and a pass with no branch taken
  leave the slot alone; a pass that parks the caller leaves \<open>WOULD_BLOCK\<close> in it.
\<close>

lemma send_attempt_slot:
  "send_attempt me s channel d ch = Finished r x \<Longrightarrow> r \<noteq> - 1 \<Longrightarrow>
     global_error x = global_error s"
  "send_attempt me s channel d ch = Parked c x \<Longrightarrow> global_error x = CORO_BUS_ERR_WOULD_BLOCK"
  "send_attempt me s channel d ch = Again x \<Longrightarrow> global_error x = global_error s"
  using try_send_slot [of s channel d]
  by (cases "coro_bus_try_send s channel d";
      auto simp: send_attempt_def coro_bus_errno_def split: if_splits)+

lemma recv_attempt_slot:
  "recv_attempt me s channel ch = Finished (r, out) x \<Longrightarrow> r \<noteq> - 1 \<Longrightarrow>
     global_error x = global_error s"
  "recv_attempt me s channel ch = Parked c x \<Longrightarrow> global_error x = CORO_BUS_ERR_WOULD_BLOCK"
  "recv_attempt me s channel ch = Again x \<Longrightarrow> global_error x = global_error s"
  using try_recv_slot [of s channel]
  by (cases "coro_bus_try_recv s channel";
      auto simp: recv_attempt_def coro_bus_errno_def split: if_splits)+

lemma send_v_attempt_slot:
  "send_v_attempt me s channel buf ch = Finished r x \<Longrightarrow> r \<noteq> - 1 \<Longrightarrow>
     global_error x = global_error s"
  "send_v_attempt me s channel buf ch = Parked c x \<Longrightarrow>
     global_error x = CORO_BUS_ERR_WOULD_BLOCK"
  "send_v_attempt me s channel buf ch = Again x \<Longrightarrow> global_error x = global_error s"
  using try_send_v_slot [of s channel buf]
  by (cases "coro_bus_try_send_v s channel buf";
      auto simp: send_v_attempt_def coro_bus_errno_def split: if_splits)+

lemma recv_v_attempt_slot:
  "recv_v_attempt me s channel capacity ch = Finished (r, out) x \<Longrightarrow> r \<noteq> - 1 \<Longrightarrow>
     global_error x = global_error s"
  "recv_v_attempt me s channel capacity ch = Parked c x \<Longrightarrow>
     global_error x = CORO_BUS_ERR_WOULD_BLOCK"
  "recv_v_attempt me s channel capacity ch = Again x \<Longrightarrow> global_error x = global_error s"
  using try_recv_v_slot [of s channel capacity]
  by (cases "coro_bus_try_recv_v s channel capacity";
      auto simp: recv_v_attempt_def coro_bus_errno_def split: if_splits)+

lemma broadcast_attempt_slot:
  "broadcast_attempt me s d = Finished r x \<Longrightarrow> r \<noteq> - 1 \<Longrightarrow>
     global_error x = global_error s"
  "broadcast_attempt me s d = Parked c x \<Longrightarrow> global_error x = CORO_BUS_ERR_WOULD_BLOCK"
  "broadcast_attempt me s d = Again x \<Longrightarrow> global_error x = global_error s"
  using try_broadcast_slot [of s d]
  by (cases "coro_bus_try_broadcast s d";
      auto simp: broadcast_attempt_def coro_bus_errno_def split: if_splits option.splits)+


lemma send_loop_slot:
  assumes keep: "\<And>n x. global_error x \<in> E \<Longrightarrow> global_error (others n x) \<in> E"
    and wb: "CORO_BUS_ERR_WOULD_BLOCK \<in> E"
  shows "global_error s \<in> E \<Longrightarrow> send_loop fuel others me s channel d = Returned r s' \<Longrightarrow>
     r \<noteq> - 1 \<Longrightarrow> global_error s' \<in> E"
proof (induction fuel arbitrary: s)
  case 0
  then show ?case by simp
next
  case (Suc n)
  from Suc.prems(2) obtain ch where ch: "channel_at s channel = Some ch"
    by (cases "channel_at s channel") auto
  show ?case
  proof (cases "send_attempt me s channel d ch")
    case (Finished r' x)
    with Suc.prems(2) ch have "send_attempt me s channel d ch = Finished r s'"
      by simp
    from send_attempt_slot(1) [OF this Suc.prems(3)] Suc.prems(1) show ?thesis by simp
  next
    case (Parked c x)
    from send_attempt_slot(2) [OF Parked] wb have "global_error x \<in> E" by simp
    then have "global_error (x\<lparr>sched := sched x @ [Suspend]\<rparr>) \<in> E" by simp
    then have "global_error (coro_suspend (others n) x) \<in> E"
      unfolding coro_suspend_def by (rule keep)
    then have "global_error (unlink_send (coro_suspend (others n) x) c me) \<in> E" by simp
    moreover from Suc.prems(2) ch Parked
    have "send_loop n others me (unlink_send (coro_suspend (others n) x) c me) channel d
        = Returned r s'" by simp
    ultimately show ?thesis using Suc.prems(3) by (rule Suc.IH)
  next
    case (Again x)
    from send_attempt_slot(3) [OF Again] Suc.prems(1) have "global_error x \<in> E" by simp
    moreover from Suc.prems(2) ch Again
    have "send_loop n others me x channel d = Returned r s'" by simp
    ultimately show ?thesis using Suc.prems(3) by (rule Suc.IH)
  qed
qed

lemma recv_loop_slot:
  assumes keep: "\<And>n x. global_error x \<in> E \<Longrightarrow> global_error (others n x) \<in> E"
    and wb: "CORO_BUS_ERR_WOULD_BLOCK \<in> E"
  shows "global_error s \<in> E \<Longrightarrow> recv_loop fuel others me s channel = Returned (r, out) s' \<Longrightarrow>
     r \<noteq> - 1 \<Longrightarrow> global_error s' \<in> E"
proof (induction fuel arbitrary: s)
  case 0
  then show ?case by simp
next
  case (Suc n)
  from Suc.prems(2) obtain ch where ch: "channel_at s channel = Some ch"
    by (cases "channel_at s channel") auto
  show ?case
  proof (cases "recv_attempt me s channel ch")
    case (Finished r' x)
    with Suc.prems(2) ch have "recv_attempt me s channel ch = Finished (r, out) s'"
      by simp
    from recv_attempt_slot(1) [OF this Suc.prems(3)] Suc.prems(1) show ?thesis by simp
  next
    case (Parked c x)
    from recv_attempt_slot(2) [OF Parked] wb have "global_error x \<in> E" by simp
    then have "global_error (x\<lparr>sched := sched x @ [Suspend]\<rparr>) \<in> E" by simp
    then have "global_error (coro_suspend (others n) x) \<in> E"
      unfolding coro_suspend_def by (rule keep)
    then have "global_error (unlink_recv (coro_suspend (others n) x) c me) \<in> E" by simp
    moreover from Suc.prems(2) ch Parked
    have "recv_loop n others me (unlink_recv (coro_suspend (others n) x) c me) channel
        = Returned (r, out) s'" by simp
    ultimately show ?thesis using Suc.prems(3) by (rule Suc.IH)
  next
    case (Again x)
    from recv_attempt_slot(3) [OF Again] Suc.prems(1) have "global_error x \<in> E" by simp
    moreover from Suc.prems(2) ch Again
    have "recv_loop n others me x channel = Returned (r, out) s'" by simp
    ultimately show ?thesis using Suc.prems(3) by (rule Suc.IH)
  qed
qed

lemma send_v_loop_blocking_slot:
  assumes keep: "\<And>n x. global_error x \<in> E \<Longrightarrow> global_error (others n x) \<in> E"
    and wb: "CORO_BUS_ERR_WOULD_BLOCK \<in> E"
  shows "global_error s \<in> E \<Longrightarrow> send_v_loop_blocking fuel others me s channel buf = Returned r s' \<Longrightarrow>
     r \<noteq> - 1 \<Longrightarrow> global_error s' \<in> E"
proof (induction fuel arbitrary: s)
  case 0
  then show ?case by simp
next
  case (Suc n)
  from Suc.prems(2) obtain ch where ch: "channel_at s channel = Some ch"
    by (cases "channel_at s channel") auto
  show ?case
  proof (cases "send_v_attempt me s channel buf ch")
    case (Finished r' x)
    with Suc.prems(2) ch have "send_v_attempt me s channel buf ch = Finished r s'"
      by simp
    from send_v_attempt_slot(1) [OF this Suc.prems(3)] Suc.prems(1) show ?thesis by simp
  next
    case (Parked c x)
    from send_v_attempt_slot(2) [OF Parked] wb have "global_error x \<in> E" by simp
    then have "global_error (x\<lparr>sched := sched x @ [Suspend]\<rparr>) \<in> E" by simp
    then have "global_error (coro_suspend (others n) x) \<in> E"
      unfolding coro_suspend_def by (rule keep)
    then have "global_error (unlink_send (coro_suspend (others n) x) c me) \<in> E" by simp
    moreover from Suc.prems(2) ch Parked
    have "send_v_loop_blocking n others me (unlink_send (coro_suspend (others n) x) c me) channel buf
        = Returned r s'" by simp
    ultimately show ?thesis using Suc.prems(3) by (rule Suc.IH)
  next
    case (Again x)
    from send_v_attempt_slot(3) [OF Again] Suc.prems(1) have "global_error x \<in> E" by simp
    moreover from Suc.prems(2) ch Again
    have "send_v_loop_blocking n others me x channel buf = Returned r s'" by simp
    ultimately show ?thesis using Suc.prems(3) by (rule Suc.IH)
  qed
qed

lemma recv_v_loop_blocking_slot:
  assumes keep: "\<And>n x. global_error x \<in> E \<Longrightarrow> global_error (others n x) \<in> E"
    and wb: "CORO_BUS_ERR_WOULD_BLOCK \<in> E"
  shows "global_error s \<in> E \<Longrightarrow> recv_v_loop_blocking fuel others me s channel capacity = Returned (r, out) s' \<Longrightarrow>
     r \<noteq> - 1 \<Longrightarrow> global_error s' \<in> E"
proof (induction fuel arbitrary: s)
  case 0
  then show ?case by simp
next
  case (Suc n)
  from Suc.prems(2) obtain ch where ch: "channel_at s channel = Some ch"
    by (cases "channel_at s channel") auto
  show ?case
  proof (cases "recv_v_attempt me s channel capacity ch")
    case (Finished r' x)
    with Suc.prems(2) ch have "recv_v_attempt me s channel capacity ch = Finished (r, out) s'"
      by simp
    from recv_v_attempt_slot(1) [OF this Suc.prems(3)] Suc.prems(1) show ?thesis by simp
  next
    case (Parked c x)
    from recv_v_attempt_slot(2) [OF Parked] wb have "global_error x \<in> E" by simp
    then have "global_error (x\<lparr>sched := sched x @ [Suspend]\<rparr>) \<in> E" by simp
    then have "global_error (coro_suspend (others n) x) \<in> E"
      unfolding coro_suspend_def by (rule keep)
    then have "global_error (unlink_recv (coro_suspend (others n) x) c me) \<in> E" by simp
    moreover from Suc.prems(2) ch Parked
    have "recv_v_loop_blocking n others me (unlink_recv (coro_suspend (others n) x) c me) channel capacity
        = Returned (r, out) s'" by simp
    ultimately show ?thesis using Suc.prems(3) by (rule Suc.IH)
  next
    case (Again x)
    from recv_v_attempt_slot(3) [OF Again] Suc.prems(1) have "global_error x \<in> E" by simp
    moreover from Suc.prems(2) ch Again
    have "recv_v_loop_blocking n others me x channel capacity = Returned (r, out) s'" by simp
    ultimately show ?thesis using Suc.prems(3) by (rule Suc.IH)
  qed
qed

lemma broadcast_slot:
  assumes keep: "\<And>n x. global_error x \<in> E \<Longrightarrow> global_error (others n x) \<in> E"
    and wb: "CORO_BUS_ERR_WOULD_BLOCK \<in> E"
  shows "global_error s \<in> E \<Longrightarrow> coro_bus_broadcast fuel others me s d = Returned r s' \<Longrightarrow>
     r \<noteq> - 1 \<Longrightarrow> global_error s' \<in> E"
proof (induction fuel arbitrary: s)
  case 0
  then show ?case by simp
next
  case (Suc n)
  show ?case
  proof (cases "broadcast_attempt me s d")
    case (Finished r' x)
    with Suc.prems(2) have "broadcast_attempt me s d = Finished r s'" by simp
    from broadcast_attempt_slot(1) [OF this Suc.prems(3)] Suc.prems(1) show ?thesis by simp
  next
    case (Parked c x)
    from broadcast_attempt_slot(2) [OF Parked] wb have "global_error x \<in> E" by simp
    then have "global_error (x\<lparr>sched := sched x @ [Suspend]\<rparr>) \<in> E" by simp
    then have "global_error (coro_suspend (others n) x) \<in> E"
      unfolding coro_suspend_def by (rule keep)
    then have "global_error (unlink_send (coro_suspend (others n) x) c me) \<in> E" by simp
    moreover from Suc.prems(2) Parked
    have "coro_bus_broadcast n others me (unlink_send (coro_suspend (others n) x) c me) d
        = Returned r s'"
      by (simp add: Let_def split: option.splits)
    ultimately show ?thesis using Suc.prems(3) by (rule Suc.IH)
  next
    case (Again x)
    from broadcast_attempt_slot(3) [OF Again] Suc.prems(1) have "global_error x \<in> E" by simp
    moreover from Suc.prems(2) Again
    have "coro_bus_broadcast n others me x d = Returned r s'" by simp
    ultimately show ?thesis using Suc.prems(3) by (rule Suc.IH)
  qed
qed

text \<open>
  With the other coroutines leaving the slot alone, a blocking call that does not return
  -1 leaves the slot as it found it, or at \<open>WOULD_BLOCK\<close> from a pass that parked it.
\<close>

lemma send_success_slot:
  assumes "\<forall>n x. global_error (others n x) = global_error x"
    and "coro_bus_send fuel others me s channel d = Returned r s'" and "r \<noteq> - 1"
  shows "global_error s' = global_error s \<or> global_error s' = CORO_BUS_ERR_WOULD_BLOCK"
proof -
  let ?E = "{global_error s, CORO_BUS_ERR_WOULD_BLOCK}"
  from assms(2,3) have l: "send_loop fuel others me s channel d = Returned r s'"
    by (cases "channel_at_int s channel") (auto simp: coro_bus_send_def)
  from assms(1) have keep: "\<And>n x. global_error x \<in> ?E \<Longrightarrow> global_error (others n x) \<in> ?E"
    by simp
  from send_loop_slot [of ?E others s fuel me channel d r s', OF keep _ _ l assms(3)]
  show ?thesis by simp
qed

lemma recv_success_slot:
  assumes "\<forall>n x. global_error (others n x) = global_error x"
    and "coro_bus_recv fuel others me s channel = Returned (r, out) s'" and "r \<noteq> - 1"
  shows "global_error s' = global_error s \<or> global_error s' = CORO_BUS_ERR_WOULD_BLOCK"
proof -
  let ?E = "{global_error s, CORO_BUS_ERR_WOULD_BLOCK}"
  from assms(2,3) have l: "recv_loop fuel others me s channel = Returned (r, out) s'"
    by (cases "channel_at s channel") (auto simp: coro_bus_recv_def)
  from assms(1) have keep: "\<And>n x. global_error x \<in> ?E \<Longrightarrow> global_error (others n x) \<in> ?E"
    by simp
  from recv_loop_slot [of ?E others s fuel me channel r out s', OF keep _ _ l assms(3)]
  show ?thesis by simp
qed

lemma send_v_success_slot:
  assumes "\<forall>n x. global_error (others n x) = global_error x"
    and "coro_bus_send_v fuel others me s channel buf = Returned r s'" and "r \<noteq> - 1"
  shows "global_error s' = global_error s \<or> global_error s' = CORO_BUS_ERR_WOULD_BLOCK"
proof -
  let ?E = "{global_error s, CORO_BUS_ERR_WOULD_BLOCK}"
  from assms(2,3) have l: "send_v_loop_blocking fuel others me s channel buf = Returned r s'"
    by (cases "channel_at s channel") (auto simp: coro_bus_send_v_def)
  from assms(1) have keep: "\<And>n x. global_error x \<in> ?E \<Longrightarrow> global_error (others n x) \<in> ?E"
    by simp
  from send_v_loop_blocking_slot [of ?E others s fuel me channel buf r s', OF keep _ _ l assms(3)]
  show ?thesis by simp
qed

lemma recv_v_success_slot:
  assumes "\<forall>n x. global_error (others n x) = global_error x"
    and "coro_bus_recv_v fuel others me s channel capacity = Returned (r, out) s'"
    and "r \<noteq> - 1"
  shows "global_error s' = global_error s \<or> global_error s' = CORO_BUS_ERR_WOULD_BLOCK"
proof -
  let ?E = "{global_error s, CORO_BUS_ERR_WOULD_BLOCK}"
  from assms(2,3)
  have l: "recv_v_loop_blocking fuel others me s channel capacity = Returned (r, out) s'"
    by (cases "channel_at s channel") (auto simp: coro_bus_recv_v_def)
  from assms(1) have keep: "\<And>n x. global_error x \<in> ?E \<Longrightarrow> global_error (others n x) \<in> ?E"
    by simp
  from recv_v_loop_blocking_slot [of ?E others s fuel me channel capacity r out s',
      OF keep _ _ l assms(3)]
  show ?thesis by simp
qed

lemma broadcast_success_slot:
  assumes "\<forall>n x. global_error (others n x) = global_error x"
    and "coro_bus_broadcast fuel others me s d = Returned r s'" and "r \<noteq> - 1"
  shows "global_error s' = global_error s \<or> global_error s' = CORO_BUS_ERR_WOULD_BLOCK"
proof -
  let ?E = "{global_error s, CORO_BUS_ERR_WOULD_BLOCK}"
  from assms(1) have keep: "\<And>n x. global_error x \<in> ?E \<Longrightarrow> global_error (others n x) \<in> ?E"
    by simp
  from broadcast_slot [of ?E others s fuel me d r s', OF keep _ _ assms(2,3)]
  show ?thesis by simp
qed

lemma bounded_global_error_update [simp]: "bounded (s\<lparr>global_error := e\<rparr>) = bounded s"
  by (simp add: bounded_def)

text \<open>
  Claim C9, amended. Every operation that fails sets the error slot to its failure
  reason before returning -1: the slot then holds \<open>NO_CHANNEL\<close> or \<open>WOULD_BLOCK\<close>;
  it is \<open>NO_CHANNEL\<close> when the id names no channel (for \<open>try_broadcast\<close>: when no
  channel is live) and after every blocking call, and \<open>WOULD_BLOCK\<close> when a try
  variant fails on a channel that is not closed (for \<open>try_broadcast\<close>: when a live
  channel is full). Which of the two a try variant leaves on a closed channel is not
  stated here. A successful operation does not clear the slot: a try variant or an open
  that does not return -1 leaves it exactly as it found it, and a blocking call that does
  not return -1 leaves it as it found it or at \<open>WOULD_BLOCK\<close>, provided the other
  coroutines do not write the slot while the caller is suspended. All this for batches
  and receive buffers shorter than \<open>2^31\<close>, in a state that satisfies I1, with other
  coroutines that keep I1.
\<close>

theorem error_slot_set_on_failure_kept_on_success:
  assumes "bounded s" and "\<forall>n x. bounded x \<longrightarrow> bounded (others n x)"
    and "length buf < 2 ^ 31" and "capacity < 2 ^ 31"
  shows
    "((fst (coro_bus_try_send s channel d) = - 1 \<longrightarrow>
         (coro_bus_errno (snd (coro_bus_try_send s channel d)) = CORO_BUS_ERR_NO_CHANNEL
          \<or> coro_bus_errno (snd (coro_bus_try_send s channel d)) = CORO_BUS_ERR_WOULD_BLOCK)
         \<and> (channel_at s channel = None \<longrightarrow>
              coro_bus_errno (snd (coro_bus_try_send s channel d)) = CORO_BUS_ERR_NO_CHANNEL)
         \<and> (\<forall>ch. channel_at s channel = Some ch \<and> \<not> is_closed ch \<longrightarrow>
              coro_bus_errno (snd (coro_bus_try_send s channel d)) = CORO_BUS_ERR_WOULD_BLOCK))
      \<and> (fst (coro_bus_try_send s channel d) \<noteq> - 1 \<longrightarrow>
         coro_bus_errno (snd (coro_bus_try_send s channel d)) = coro_bus_errno s))
   \<and> ((fst (coro_bus_try_recv s channel) = - 1 \<longrightarrow>
         (coro_bus_errno (snd (snd (coro_bus_try_recv s channel))) = CORO_BUS_ERR_NO_CHANNEL
          \<or> coro_bus_errno (snd (snd (coro_bus_try_recv s channel))) = CORO_BUS_ERR_WOULD_BLOCK)
         \<and> (channel_at s channel = None \<longrightarrow>
              coro_bus_errno (snd (snd (coro_bus_try_recv s channel))) = CORO_BUS_ERR_NO_CHANNEL)
         \<and> (\<forall>ch. channel_at s channel = Some ch \<and> \<not> is_closed ch \<longrightarrow>
              coro_bus_errno (snd (snd (coro_bus_try_recv s channel))) = CORO_BUS_ERR_WOULD_BLOCK))
      \<and> (fst (coro_bus_try_recv s channel) \<noteq> - 1 \<longrightarrow>
         coro_bus_errno (snd (snd (coro_bus_try_recv s channel))) = coro_bus_errno s))
   \<and> ((fst (coro_bus_try_send_v s channel buf) = - 1 \<longrightarrow>
         (coro_bus_errno (snd (coro_bus_try_send_v s channel buf)) = CORO_BUS_ERR_NO_CHANNEL
          \<or> coro_bus_errno (snd (coro_bus_try_send_v s channel buf)) = CORO_BUS_ERR_WOULD_BLOCK)
         \<and> (channel_at s channel = None \<longrightarrow>
              coro_bus_errno (snd (coro_bus_try_send_v s channel buf)) = CORO_BUS_ERR_NO_CHANNEL)
         \<and> (\<forall>ch. channel_at s channel = Some ch \<and> \<not> is_closed ch \<longrightarrow>
              coro_bus_errno (snd (coro_bus_try_send_v s channel buf)) = CORO_BUS_ERR_WOULD_BLOCK))
      \<and> (fst (coro_bus_try_send_v s channel buf) \<noteq> - 1 \<longrightarrow>
         coro_bus_errno (snd (coro_bus_try_send_v s channel buf)) = coro_bus_errno s))
   \<and> ((fst (coro_bus_try_recv_v s channel capacity) = - 1 \<longrightarrow>
         (coro_bus_errno (snd (snd (coro_bus_try_recv_v s channel capacity)))
            = CORO_BUS_ERR_NO_CHANNEL
          \<or> coro_bus_errno (snd (snd (coro_bus_try_recv_v s channel capacity)))
            = CORO_BUS_ERR_WOULD_BLOCK)
         \<and> (channel_at s channel = None \<longrightarrow>
              coro_bus_errno (snd (snd (coro_bus_try_recv_v s channel capacity)))
                = CORO_BUS_ERR_NO_CHANNEL)
         \<and> (\<forall>ch. channel_at s channel = Some ch \<and> \<not> is_closed ch \<longrightarrow>
              coro_bus_errno (snd (snd (coro_bus_try_recv_v s channel capacity)))
                = CORO_BUS_ERR_WOULD_BLOCK))
      \<and> (fst (coro_bus_try_recv_v s channel capacity) \<noteq> - 1 \<longrightarrow>
         coro_bus_errno (snd (snd (coro_bus_try_recv_v s channel capacity))) = coro_bus_errno s))
   \<and> ((fst (coro_bus_try_broadcast s d) = - 1 \<longrightarrow>
         coro_bus_errno (snd (coro_bus_try_broadcast s d)) =
           (if \<exists>c \<in> set (channels s). live_slot c then CORO_BUS_ERR_WOULD_BLOCK
            else CORO_BUS_ERR_NO_CHANNEL))
      \<and> (fst (coro_bus_try_broadcast s d) \<noteq> - 1 \<longrightarrow>
         coro_bus_errno (snd (coro_bus_try_broadcast s d)) = coro_bus_errno s))
   \<and> coro_bus_errno (snd (coro_bus_channel_open s limit)) = coro_bus_errno s
   \<and> ((\<forall>s'. coro_bus_send fuel others me s channel d = Returned (- 1) s' \<longrightarrow>
         coro_bus_errno s' = CORO_BUS_ERR_NO_CHANNEL)
      \<and> (\<forall>out s'. coro_bus_recv fuel others me s channel = Returned (- 1, out) s' \<longrightarrow>
         coro_bus_errno s' = CORO_BUS_ERR_NO_CHANNEL)
      \<and> (\<forall>s'. coro_bus_send_v fuel others me s channel buf = Returned (- 1) s' \<longrightarrow>
         coro_bus_errno s' = CORO_BUS_ERR_NO_CHANNEL)
      \<and> (\<forall>outs s'. coro_bus_recv_v fuel others me s channel capacity
            = Returned (- 1, outs) s' \<longrightarrow>
         coro_bus_errno s' = CORO_BUS_ERR_NO_CHANNEL)
      \<and> (\<forall>s'. coro_bus_broadcast fuel others me s d = Returned (- 1) s' \<longrightarrow>
         coro_bus_errno s' = CORO_BUS_ERR_NO_CHANNEL))
   \<and> ((\<forall>n x. global_error (others n x) = global_error x) \<longrightarrow>
        (\<forall>r s'. coro_bus_send fuel others me s channel d = Returned r s' \<and> r \<noteq> - 1 \<longrightarrow>
           coro_bus_errno s' = coro_bus_errno s
           \<or> coro_bus_errno s' = CORO_BUS_ERR_WOULD_BLOCK)
      \<and> (\<forall>r out s'. coro_bus_recv fuel others me s channel = Returned (r, out) s' \<and> r \<noteq> - 1 \<longrightarrow>
           coro_bus_errno s' = coro_bus_errno s
           \<or> coro_bus_errno s' = CORO_BUS_ERR_WOULD_BLOCK)
      \<and> (\<forall>r s'. coro_bus_send_v fuel others me s channel buf = Returned r s' \<and> r \<noteq> - 1 \<longrightarrow>
           coro_bus_errno s' = coro_bus_errno s
           \<or> coro_bus_errno s' = CORO_BUS_ERR_WOULD_BLOCK)
      \<and> (\<forall>r outs s'. coro_bus_recv_v fuel others me s channel capacity = Returned (r, outs) s'
            \<and> r \<noteq> - 1 \<longrightarrow>
           coro_bus_errno s' = coro_bus_errno s
           \<or> coro_bus_errno s' = CORO_BUS_ERR_WOULD_BLOCK)
      \<and> (\<forall>r s'. coro_bus_broadcast fuel others me s d = Returned r s' \<and> r \<noteq> - 1 \<longrightarrow>
           coro_bus_errno s' = coro_bus_errno s
           \<or> coro_bus_errno s' = CORO_BUS_ERR_WOULD_BLOCK))"
  (is "?T1 \<and> ?T2 \<and> ?T3 \<and> ?T4 \<and> ?T5 \<and> ?T6 \<and> ?F \<and> ?S")
proof -
  from assms(2) have keep: "\<And>n x. bounded x \<Longrightarrow> bounded (others n x)" by blast
  have t1: ?T1 using try_send_errno [of s channel d] by auto
  have t2: ?T2 using try_recv_errno [of s channel] by auto
  have t3: ?T3 using try_send_v_errno [OF assms(3), of s channel] by auto
  have t4: ?T4 using try_recv_v_errno [OF assms(4), of s channel] by auto
  have t5: ?T5 by (rule try_broadcast_errno)
  have t6: ?T6 by (rule channel_open_errno)
  have f: ?F
    using broadcast_failure [of others s fuel me d, OF keep assms(1)]
    by (auto simp: coro_bus_errno_def
        dest: send_failure recv_failure send_v_failure recv_v_failure)
  have s: ?S
  proof (intro impI conjI allI)
    fix r s'
    assume o: "\<forall>n x. global_error (others n x) = global_error x"
      and "coro_bus_send fuel others me s channel d = Returned r s' \<and> r \<noteq> - 1"
    then show "coro_bus_errno s' = coro_bus_errno s
        \<or> coro_bus_errno s' = CORO_BUS_ERR_WOULD_BLOCK"
      using send_success_slot [OF o, of fuel me s channel d r s']
      by (simp add: coro_bus_errno_def)
  next
    fix r out s'
    assume o: "\<forall>n x. global_error (others n x) = global_error x"
      and "coro_bus_recv fuel others me s channel = Returned (r, out) s' \<and> r \<noteq> - 1"
    then show "coro_bus_errno s' = coro_bus_errno s
        \<or> coro_bus_errno s' = CORO_BUS_ERR_WOULD_BLOCK"
      using recv_success_slot [OF o, of fuel me s channel r out s']
      by (simp add: coro_bus_errno_def)
  next
    fix r s'
    assume o: "\<forall>n x. global_error (others n x) = global_error x"
      and "coro_bus_send_v fuel others me s channel buf = Returned r s' \<and> r \<noteq> - 1"
    then show "coro_bus_errno s' = coro_bus_errno s
        \<or> coro_bus_errno s' = CORO_BUS_ERR_WOULD_BLOCK"
      using send_v_success_slot [OF o, of fuel me s channel buf r s']
      by (simp add: coro_bus_errno_def)
  next
    fix r outs s'
    assume o: "\<forall>n x. global_error (others n x) = global_error x"
      and "coro_bus_recv_v fuel others me s channel capacity = Returned (r, outs) s' \<and> r \<noteq> - 1"
    then show "coro_bus_errno s' = coro_bus_errno s
        \<or> coro_bus_errno s' = CORO_BUS_ERR_WOULD_BLOCK"
      using recv_v_success_slot [OF o, of fuel me s channel capacity r outs s']
      by (simp add: coro_bus_errno_def)
  next
    fix r s'
    assume o: "\<forall>n x. global_error (others n x) = global_error x"
      and "coro_bus_broadcast fuel others me s d = Returned r s' \<and> r \<noteq> - 1"
    then show "coro_bus_errno s' = coro_bus_errno s
        \<or> coro_bus_errno s' = CORO_BUS_ERR_WOULD_BLOCK"
      using broadcast_success_slot [OF o, of fuel me s d r s']
      by (simp add: coro_bus_errno_def)
  qed
  show ?thesis
    by (rule conjI [OF t1 conjI [OF t2 conjI [OF t3 conjI [OF t4 conjI [OF t5
          conjI [OF t6 conjI [OF f s]]]]]]])
qed


text \<open>
  A channel of limit 1, empty, with \<open>NO_CHANNEL\<close> in the slot from an earlier failure.
  A \<open>try_send\<close> succeeds and the slot stays. A \<open>try_recv\<close> fails and the slot is
  \<open>WOULD_BLOCK\<close>. Coroutine 3 calls recv and is suspended; meanwhile another
  coroutine's \<open>try_send\<close> of 5 goes through (the slot is put back to what the sleeper
  left, so that nothing else writes it); recv returns 0 with 5, and the slot reads
  \<open>WOULD_BLOCK\<close> from the pass that parked it.
\<close>

theorem error_slot_set_on_failure_kept_on_success_witness:
  "bounded \<lparr>channels = [Some (new_channel 1)], global_error = CORO_BUS_ERR_NO_CHANNEL, sched = []\<rparr>
   \<and> length [1, 2 :: 32 word] < 2 ^ 31 \<and> (4::nat) < 2 ^ 31
   \<and> fst (coro_bus_try_send
        \<lparr>channels = [Some (new_channel 1)], global_error = CORO_BUS_ERR_NO_CHANNEL, sched = []\<rparr>
        0 5) = 0
   \<and> coro_bus_errno (snd (coro_bus_try_send
        \<lparr>channels = [Some (new_channel 1)], global_error = CORO_BUS_ERR_NO_CHANNEL, sched = []\<rparr>
        0 5)) = CORO_BUS_ERR_NO_CHANNEL
   \<and> fst (coro_bus_try_recv
        \<lparr>channels = [Some (new_channel 1)], global_error = CORO_BUS_ERR_NO_CHANNEL, sched = []\<rparr>
        0) = - 1
   \<and> coro_bus_errno (snd (snd (coro_bus_try_recv
        \<lparr>channels = [Some (new_channel 1)], global_error = CORO_BUS_ERR_NO_CHANNEL, sched = []\<rparr>
        0))) = CORO_BUS_ERR_WOULD_BLOCK
   \<and> coro_bus_recv 2
        (\<lambda>n x. (snd (coro_bus_try_send x 0 5))\<lparr>global_error := global_error x\<rparr>) 3
        \<lparr>channels = [Some (new_channel 1)], global_error = CORO_BUS_ERR_NO_CHANNEL, sched = []\<rparr>
        0 =
       Returned (0, Some 5)
        \<lparr>channels = [Some (new_channel 1)], global_error = CORO_BUS_ERR_WOULD_BLOCK,
         sched = [Suspend, Wakeup 3]\<rparr>
   \<and> (coro_bus_errno
        \<lparr>channels = [Some (new_channel 1)], global_error = CORO_BUS_ERR_WOULD_BLOCK,
         sched = [Suspend, Wakeup 3]\<rparr> = CORO_BUS_ERR_NO_CHANNEL
      \<or> coro_bus_errno
        \<lparr>channels = [Some (new_channel 1)], global_error = CORO_BUS_ERR_WOULD_BLOCK,
         sched = [Suspend, Wakeup 3]\<rparr> = CORO_BUS_ERR_WOULD_BLOCK)"
proof -
  let ?s = "\<lparr>channels = [Some (new_channel 1)], global_error = CORO_BUS_ERR_NO_CHANNEL,
             sched = []\<rparr>"
  let ?s' = "\<lparr>channels = [Some (new_channel 1)], global_error = CORO_BUS_ERR_WOULD_BLOCK,
         sched = [Suspend, Wakeup 3]\<rparr>"
  let ?others = "\<lambda>(n::nat) x. (snd (coro_bus_try_send x 0 5))\<lparr>global_error := global_error x\<rparr>"
  have b: "bounded ?s" by (simp add: bounded_def new_channel_def)
  have keep: "\<forall>n x. bounded x \<longrightarrow> bounded (?others n x)"
    by (simp add: bounded_try_send)
  have alone: "\<forall>n x. global_error (?others n x) = global_error x" by simp
  have l: "length [1, 2 :: 32 word] < 2 ^ 31" by simp
  have c: "(4::nat) < 2 ^ 31" by simp
  have ok: "fst (coro_bus_try_send ?s 0 5) = 0"
    by (simp add: coro_bus_try_send_def channel_at_def new_channel_def)
  have bad: "fst (coro_bus_try_recv ?s 0) = - 1"
    by (simp add: coro_bus_try_recv_def channel_at_def new_channel_def)
  have at: "channel_at ?s 0 = Some (new_channel 1) \<and> \<not> is_closed (new_channel 1)"
    by (simp add: channel_at_def new_channel_def)
  have run: "coro_bus_recv (Suc (Suc 0)) ?others 3 ?s 0 = Returned (0, Some 5) ?s'"
    by (simp add: coro_bus_recv_def channel_at_def recv_attempt_def coro_bus_try_recv_def
        coro_bus_try_send_def coro_bus_errno_set_def coro_bus_errno_def link_recv_def
        unlink_recv_def set_channel_def coro_suspend_def wakeup_first_def coro_wakeup_def
        wake_next_receiver_def new_channel_def)
  note th = error_slot_set_on_failure_kept_on_success
    [OF b keep l c, of 0 5 0 "Suc (Suc 0)" 3]
  note t1 = th [THEN conjunct1]
  note t2 = th [THEN conjunct2, THEN conjunct1]
  note sc = th [THEN conjunct2, THEN conjunct2, THEN conjunct2, THEN conjunct2,
    THEN conjunct2, THEN conjunct2, THEN conjunct2]
  from t1 ok have e1: "coro_bus_errno (snd (coro_bus_try_send ?s 0 5)) = coro_bus_errno ?s"
    by simp
  from t2 bad
  have "\<forall>ch. channel_at ?s 0 = Some ch \<and> \<not> is_closed ch \<longrightarrow>
      coro_bus_errno (snd (snd (coro_bus_try_recv ?s 0))) = CORO_BUS_ERR_WOULD_BLOCK"
    by simp
  with at
  have e2: "coro_bus_errno (snd (snd (coro_bus_try_recv ?s 0))) = CORO_BUS_ERR_WOULD_BLOCK"
    by blast
  from sc alone
  have "\<forall>r out s'. coro_bus_recv (Suc (Suc 0)) ?others 3 ?s 0 = Returned (r, out) s' \<and> r \<noteq> - 1
      \<longrightarrow> coro_bus_errno s' = coro_bus_errno ?s \<or> coro_bus_errno s' = CORO_BUS_ERR_WOULD_BLOCK"
    by blast
  then have "coro_bus_recv (Suc (Suc 0)) ?others 3 ?s 0 = Returned (0, Some 5) ?s' \<and> (0::int) \<noteq> - 1
      \<longrightarrow> coro_bus_errno ?s' = coro_bus_errno ?s \<or> coro_bus_errno ?s' = CORO_BUS_ERR_WOULD_BLOCK"
    by blast
  with run have e3: "coro_bus_errno ?s' = coro_bus_errno ?s
      \<or> coro_bus_errno ?s' = CORO_BUS_ERR_WOULD_BLOCK"
    by simp
  have n2: "(2::nat) = Suc (Suc 0)" by simp
  from b l c ok bad e1 e2 run e3 show ?thesis
    by (simp only: n2) (simp add: coro_bus_errno_def)
qed

section \<open>Whole operations stay within the reachable states\<close>

text \<open>
  A whole blocking call, and a whole close, is a sequence of actions of the caller with
  the other coroutines running in between. If what the others do leads from reachable
  states to reachable states, so does the call.
\<close>

lemma reachable_coro_suspend:
  assumes "reachable s" and "\<And>x. reachable x \<Longrightarrow> reachable (others x)"
  shows "reachable (coro_suspend others s)"
proof -
  from reachable.step [OF assms(1), of "Runtime Suspend"]
  have "reachable (s\<lparr>sched := sched s @ [Suspend]\<rparr>)" by simp
  then show ?thesis unfolding coro_suspend_def by (rule assms(2))
qed

lemma reachable_coro_yield:
  assumes "reachable s" and "\<And>x. reachable x \<Longrightarrow> reachable (others x)"
  shows "reachable (coro_yield others s)"
proof -
  from reachable.step [OF assms(1), of "Runtime Yield"]
  have "reachable (s\<lparr>sched := sched s @ [Yield]\<rparr>)" by simp
  then show ?thesis unfolding coro_yield_def by (rule assms(2))
qed

lemma reachable_channel_close:
  assumes "reachable s" and "\<And>x. reachable x \<Longrightarrow> reachable (others x)"
  shows "reachable (coro_bus_channel_close others s channel)"
proof (cases "close_wake s channel")
  case None
  with assms(1) show ?thesis by (simp add: coro_bus_channel_close_def)
next
  case (Some s3)
  from reachable.step [OF assms(1), of "Close_wake channel"] Some have "reachable s3" by simp
  then have "reachable (coro_yield others s3)" by (rule reachable_coro_yield) (rule assms(2))
  from reachable.step [OF this, of "Close_free channel"] Some show ?thesis
    by (simp add: coro_bus_channel_close_def)
qed

lemma reachable_send_loop:
  assumes others: "\<And>n x. reachable x \<Longrightarrow> reachable (others n x)"
  shows "reachable s \<Longrightarrow> send_loop fuel others me s channel d = Returned r s' \<Longrightarrow> reachable s'"
proof (induction fuel arbitrary: s)
  case 0
  then show ?case by simp
next
  case (Suc n)
  from Suc.prems(2) obtain ch where ch: "channel_at s channel = Some ch"
    by (cases "channel_at s channel") auto
  from reachable.step [OF Suc.prems(1), of "Send_attempt me channel d"] ch
  have a: "reachable (attempt_state (send_attempt me s channel d ch))" by simp
  show ?case
  proof (cases "send_attempt me s channel d ch")
    case (Finished r' x)
    with Suc.prems(2) ch a show ?thesis by simp
  next
    case (Parked c x)
    with a have "reachable x" by simp
    then have "reachable (coro_suspend (others n) x)"
      by (rule reachable_coro_suspend) (rule others)
    from reachable.step [OF this, of "Unlink_send me c"]
    have "reachable (unlink_send (coro_suspend (others n) x) c me)" by simp
    moreover from Suc.prems(2) ch Parked
    have "send_loop n others me (unlink_send (coro_suspend (others n) x) c me) channel d
        = Returned r s'" by simp
    ultimately show ?thesis by (rule Suc.IH)
  next
    case (Again x)
    with a have "reachable x" by simp
    moreover from Suc.prems(2) ch Again have "send_loop n others me x channel d = Returned r s'"
      by simp
    ultimately show ?thesis by (rule Suc.IH)
  qed
qed

lemma reachable_recv_loop:
  assumes others: "\<And>n x. reachable x \<Longrightarrow> reachable (others n x)"
  shows "reachable s \<Longrightarrow> recv_loop fuel others me s channel = Returned r s' \<Longrightarrow> reachable s'"
proof (induction fuel arbitrary: s)
  case 0
  then show ?case by simp
next
  case (Suc n)
  from Suc.prems(2) obtain ch where ch: "channel_at s channel = Some ch"
    by (cases "channel_at s channel") auto
  from reachable.step [OF Suc.prems(1), of "Recv_attempt me channel"] ch
  have a: "reachable (attempt_state (recv_attempt me s channel ch))" by simp
  show ?case
  proof (cases "recv_attempt me s channel ch")
    case (Finished r' x)
    with Suc.prems(2) ch a show ?thesis by simp
  next
    case (Parked c x)
    with a have "reachable x" by simp
    then have "reachable (coro_suspend (others n) x)"
      by (rule reachable_coro_suspend) (rule others)
    from reachable.step [OF this, of "Unlink_recv me c"]
    have "reachable (unlink_recv (coro_suspend (others n) x) c me)" by simp
    moreover from Suc.prems(2) ch Parked
    have "recv_loop n others me (unlink_recv (coro_suspend (others n) x) c me) channel
        = Returned r s'" by simp
    ultimately show ?thesis by (rule Suc.IH)
  next
    case (Again x)
    with a have "reachable x" by simp
    moreover from Suc.prems(2) ch Again have "recv_loop n others me x channel = Returned r s'"
      by simp
    ultimately show ?thesis by (rule Suc.IH)
  qed
qed

lemma reachable_send_v_loop_blocking:
  assumes others: "\<And>n x. reachable x \<Longrightarrow> reachable (others n x)"
  shows "reachable s \<Longrightarrow> send_v_loop_blocking fuel others me s channel buf = Returned r s' \<Longrightarrow>
    reachable s'"
proof (induction fuel arbitrary: s)
  case 0
  then show ?case by simp
next
  case (Suc n)
  from Suc.prems(2) obtain ch where ch: "channel_at s channel = Some ch"
    by (cases "channel_at s channel") auto
  from reachable.step [OF Suc.prems(1), of "Send_v_attempt me channel buf"] ch
  have a: "reachable (attempt_state (send_v_attempt me s channel buf ch))" by simp
  show ?case
  proof (cases "send_v_attempt me s channel buf ch")
    case (Finished r' x)
    with Suc.prems(2) ch a show ?thesis by simp
  next
    case (Parked c x)
    with a have "reachable x" by simp
    then have "reachable (coro_suspend (others n) x)"
      by (rule reachable_coro_suspend) (rule others)
    from reachable.step [OF this, of "Unlink_send me c"]
    have "reachable (unlink_send (coro_suspend (others n) x) c me)" by simp
    moreover from Suc.prems(2) ch Parked
    have "send_v_loop_blocking n others me (unlink_send (coro_suspend (others n) x) c me)
        channel buf = Returned r s'" by simp
    ultimately show ?thesis by (rule Suc.IH)
  next
    case (Again x)
    with a have "reachable x" by simp
    moreover from Suc.prems(2) ch Again
    have "send_v_loop_blocking n others me x channel buf = Returned r s'" by simp
    ultimately show ?thesis by (rule Suc.IH)
  qed
qed

lemma reachable_recv_v_loop_blocking:
  assumes others: "\<And>n x. reachable x \<Longrightarrow> reachable (others n x)"
  shows "reachable s \<Longrightarrow>
    recv_v_loop_blocking fuel others me s channel capacity = Returned r s' \<Longrightarrow> reachable s'"
proof (induction fuel arbitrary: s)
  case 0
  then show ?case by simp
next
  case (Suc n)
  from Suc.prems(2) obtain ch where ch: "channel_at s channel = Some ch"
    by (cases "channel_at s channel") auto
  from reachable.step [OF Suc.prems(1), of "Recv_v_attempt me channel capacity"] ch
  have a: "reachable (attempt_state (recv_v_attempt me s channel capacity ch))" by simp
  show ?case
  proof (cases "recv_v_attempt me s channel capacity ch")
    case (Finished r' x)
    with Suc.prems(2) ch a show ?thesis by simp
  next
    case (Parked c x)
    with a have "reachable x" by simp
    then have "reachable (coro_suspend (others n) x)"
      by (rule reachable_coro_suspend) (rule others)
    from reachable.step [OF this, of "Unlink_recv me c"]
    have "reachable (unlink_recv (coro_suspend (others n) x) c me)" by simp
    moreover from Suc.prems(2) ch Parked
    have "recv_v_loop_blocking n others me (unlink_recv (coro_suspend (others n) x) c me)
        channel capacity = Returned r s'" by simp
    ultimately show ?thesis by (rule Suc.IH)
  next
    case (Again x)
    with a have "reachable x" by simp
    moreover from Suc.prems(2) ch Again
    have "recv_v_loop_blocking n others me x channel capacity = Returned r s'" by simp
    ultimately show ?thesis by (rule Suc.IH)
  qed
qed

lemma reachable_broadcast:
  assumes others: "\<And>n x. reachable x \<Longrightarrow> reachable (others n x)"
  shows "reachable s \<Longrightarrow> coro_bus_broadcast fuel others me s d = Returned r s' \<Longrightarrow> reachable s'"
proof (induction fuel arbitrary: s)
  case 0
  then show ?case by simp
next
  case (Suc n)
  from reachable.step [OF Suc.prems(1), of "Broadcast_attempt me d"]
  have a: "reachable (attempt_state (broadcast_attempt me s d))" by simp
  show ?case
  proof (cases "broadcast_attempt me s d")
    case (Finished r' x)
    with Suc.prems(2) a show ?thesis by simp
  next
    case (Parked c x)
    with a have "reachable x" by simp
    then have "reachable (coro_suspend (others n) x)"
      by (rule reachable_coro_suspend) (rule others)
    from reachable.step [OF this, of "Unlink_send me c"]
    have "reachable (unlink_send (coro_suspend (others n) x) c me)" by simp
    moreover from Suc.prems(2) Parked
    have "coro_bus_broadcast n others me (unlink_send (coro_suspend (others n) x) c me) d
        = Returned r s'"
      by (simp add: Let_def split: option.splits)
    ultimately show ?thesis by (rule Suc.IH)
  next
    case (Again x)
    with a have "reachable x" by simp
    moreover from Suc.prems(2) Again have "coro_bus_broadcast n others me x d = Returned r s'"
      by simp
    ultimately show ?thesis by (rule Suc.IH)
  qed
qed

lemma reachable_send:
  assumes "\<And>n x. reachable x \<Longrightarrow> reachable (others n x)" and "reachable s"
    and "coro_bus_send fuel others me s channel d = Returned r s'"
  shows "reachable s'"
proof (cases "channel_at_int s channel")
  case None
  with assms(3) reachable.step [OF assms(2), of "Errno_set CORO_BUS_ERR_NO_CHANNEL"]
  show ?thesis by (auto simp: coro_bus_send_def)
next
  case (Some ch)
  with assms(3) have "send_loop fuel others me s channel d = Returned r s'"
    by (simp add: coro_bus_send_def)
  with assms(1,2) show ?thesis by (rule reachable_send_loop)
qed

lemma reachable_recv:
  assumes "\<And>n x. reachable x \<Longrightarrow> reachable (others n x)" and "reachable s"
    and "coro_bus_recv fuel others me s channel = Returned r s'"
  shows "reachable s'"
proof (cases "channel_at s channel")
  case None
  with assms(3) reachable.step [OF assms(2), of "Errno_set CORO_BUS_ERR_NO_CHANNEL"]
  show ?thesis by (auto simp: coro_bus_recv_def)
next
  case (Some ch)
  with assms(3) have "recv_loop fuel others me s channel = Returned r s'"
    by (simp add: coro_bus_recv_def)
  with assms(1,2) show ?thesis by (rule reachable_recv_loop)
qed

lemma reachable_send_v:
  assumes "\<And>n x. reachable x \<Longrightarrow> reachable (others n x)" and "reachable s"
    and "coro_bus_send_v fuel others me s channel buf = Returned r s'"
  shows "reachable s'"
proof (cases "channel_at s channel")
  case None
  with assms(3) reachable.step [OF assms(2), of "Errno_set CORO_BUS_ERR_NO_CHANNEL"]
  show ?thesis by (auto simp: coro_bus_send_v_def)
next
  case (Some ch)
  with assms(3) have "send_v_loop_blocking fuel others me s channel buf = Returned r s'"
    by (simp add: coro_bus_send_v_def)
  with assms(1,2) show ?thesis by (rule reachable_send_v_loop_blocking)
qed

lemma reachable_recv_v:
  assumes "\<And>n x. reachable x \<Longrightarrow> reachable (others n x)" and "reachable s"
    and "coro_bus_recv_v fuel others me s channel capacity = Returned r s'"
  shows "reachable s'"
proof (cases "channel_at s channel")
  case None
  with assms(3) reachable.step [OF assms(2), of "Errno_set CORO_BUS_ERR_NO_CHANNEL"]
  show ?thesis by (auto simp: coro_bus_recv_v_def)
next
  case (Some ch)
  with assms(3) have "recv_v_loop_blocking fuel others me s channel capacity = Returned r s'"
    by (simp add: coro_bus_recv_v_def)
  with assms(1,2) show ?thesis by (rule reachable_recv_v_loop_blocking)
qed

end
